theory Spec2Isabelle
  imports Complex_Main "HOL-Library.Multiset"
begin

section \<open>Data model\<close>

text \<open>
  The program (\<^verbatim>\<open>gatsp.cpp\<close>) builds candidate solutions of a capacitated vehicle routing
  problem. A chromosome is a \<^verbatim>\<open>vector<int>\<close> whose tokens are customer ids and the separator
  \<^verbatim>\<open>0\<close>; a route is a \<^verbatim>\<open>vector<int>\<close> of node ids that starts and ends with the depot.

  Conventions of the embedding:
  \<^item> C++ \<^verbatim>\<open>int\<close> values are modelled by \<open>int\<close>. The sum that \<^verbatim>\<open>routeDemand\<close> accumulates in
    a 32-bit \<^verbatim>\<open>int\<close> wraps around at 32 bits (\<open>wrap_int32\<close>). The running load of the
    generator only decides where a bin is cut; it is an unbounded sum.
  \<^item> The table \<^verbatim>\<open>demand\<close>, which the instance reader sizes \<^verbatim>\<open>n+1\<close>, is a total lookup
    function on ids. The coordinates, the distance matrix, the vectors that the functions
    below allocate themselves (\<^verbatim>\<open>visited\<close>, \<^verbatim>\<open>count\<close>, \<^verbatim>\<open>missing\<close>) and the chromosome are
    lists, and every read of them outside their bounds is the error value \<open>OutOfRange\<close>.
  \<^item> \<^verbatim>\<open>std::shuffle\<close> is not modelled: the shuffled customer list is an input of the generator,
    constrained in the theorems to be a permutation of \<open>[2..n]\<close>.
  \<^item> The \<^verbatim>\<open>while\<close> loop of \<^verbatim>\<open>repairZero\<close> need not terminate; it is a partial function into
    \<open>option\<close>, where \<open>None\<close> means that the loop runs forever.
  \<^item> \<^verbatim>\<open>double\<close> is idealised by \<open>real\<close>.
\<close>

datatype error = OutOfRange | LengthError

section \<open>SequenceGenerator: \<^verbatim>\<open>initPopulationSeq\<close>\<close>

text \<open>
  One step of the packing loop over the shuffled customers:
  \<^verbatim>\<open>if (currentLoad + demand[cust] <= capacity) { currentGroup.push_back(cust); currentLoad += demand[cust]; }
  else { groups.push_back(currentGroup); currentGroup = {cust}; currentLoad = demand[cust]; }\<close>
\<close>

fun pack_step :: "(int \<Rightarrow> int) \<Rightarrow> int \<Rightarrow> int list list \<times> int list \<times> int \<Rightarrow> int
    \<Rightarrow> int list list \<times> int list \<times> int" where
  "pack_step demand capacity (groups, currentGroup, currentLoad) cust =
     (if currentLoad + demand cust \<le> capacity
      then (groups, currentGroup @ [cust], currentLoad + demand cust)
      else (groups @ [currentGroup], [cust], demand cust))"

fun pack_customers :: "(int \<Rightarrow> int) \<Rightarrow> int \<Rightarrow> int list
    \<Rightarrow> int list list \<times> int list \<times> int \<Rightarrow> int list list \<times> int list \<times> int" where
  "pack_customers demand capacity [] st = st"
| "pack_customers demand capacity (cust # rest) st =
     pack_customers demand capacity rest (pack_step demand capacity st cust)"

text \<open>\<^verbatim>\<open>if (!currentGroup.empty()) groups.push_back(currentGroup);\<close>\<close>

fun close_groups :: "int list list \<times> int list \<times> int \<Rightarrow> int list list" where
  "close_groups (groups, currentGroup, currentLoad) =
     (if currentGroup \<noteq> [] then groups @ [currentGroup] else groups)"

text \<open>\<^verbatim>\<open>while ((int)groups.size() < vehicle) groups.push_back({});\<close>\<close>

definition pad_groups :: "int \<Rightarrow> int list list \<Rightarrow> int list list" where
  "pad_groups vehicle groups = groups @ replicate (nat (vehicle - int (length groups))) []"

text \<open>
  The concatenation loop; \<open>gs \<noteq> []\<close> is the test \<^verbatim>\<open>i != groups.size() - 1\<close>:
  \<^verbatim>\<open>for (size_t i = 0; i < groups.size(); ++i) {
    for (int cust : groups[i]) seq.push_back(cust);
    if (i != groups.size() - 1) seq.push_back(0); }\<close>
\<close>

fun join_groups :: "int list list \<Rightarrow> int list" where
  "join_groups [] = []"
| "join_groups (g # gs) = g @ (if gs \<noteq> [] then [0] else []) @ join_groups gs"

definition make_groups :: "int \<Rightarrow> int \<Rightarrow> (int \<Rightarrow> int) \<Rightarrow> int list \<Rightarrow> int list list" where
  "make_groups vehicle capacity demand customers =
     pad_groups vehicle (close_groups (pack_customers demand capacity customers ([], [], 0)))"

text \<open>The body of the loop over the population, for one shuffled customer list.\<close>

definition initSeq :: "int \<Rightarrow> int \<Rightarrow> (int \<Rightarrow> int) \<Rightarrow> int list \<Rightarrow> int list" where
  "initSeq vehicle capacity demand customers =
     join_groups (make_groups vehicle capacity demand customers)"

text \<open>The population: one chromosome for each of the shuffles drawn (50 in the source).\<close>

definition initPopulationSeq :: "int \<Rightarrow> int \<Rightarrow> (int \<Rightarrow> int) \<Rightarrow> int list list \<Rightarrow> int list list" where
  "initPopulationSeq vehicle capacity demand perms =
     map (initSeq vehicle capacity demand) perms"

section \<open>ZeroRepair: \<^verbatim>\<open>repairZero\<close>\<close>

text \<open>\<^verbatim>\<open>seq.erase(seq.begin() + i)\<close>\<close>

definition erase_at :: "nat \<Rightarrow> int list \<Rightarrow> int list" where
  "erase_at i seq = take i seq @ drop (Suc i) seq"

text \<open>\<^verbatim>\<open>find(seq.begin(), seq.end(), 0)\<close>: the index of the first separator, \<open>length seq\<close> for
  \<^verbatim>\<open>seq.end()\<close>.\<close>

fun find_zero :: "int list \<Rightarrow> nat" where
  "find_zero [] = 0"
| "find_zero (v # vs) = (if v = 0 then 0 else Suc (find_zero vs))"

text \<open>
  The body of the \<^verbatim>\<open>for\<close> loop; the third component says whether it ends in \<^verbatim>\<open>break\<close>.
  \<^verbatim>\<open>if (seq[i] == 0 && (i == 0 || i == seq.size() - 1 || (i + 1 < seq.size() && seq[i + 1] == 0))) {
    seq.erase(seq.begin() + i); zeroCount--;
    if (zeroCount == needZero) break; }
  if (zeroCount > needZero) {
    auto it = find(seq.begin(), seq.end(), 0);
    if (it != seq.end()) { seq.erase(it); zeroCount--; }
    if (zeroCount == needZero) break; }\<close>
\<close>

definition repairZero_body :: "nat \<Rightarrow> int list \<Rightarrow> int \<Rightarrow> int \<Rightarrow> int list \<times> int \<times> bool" where
  "repairZero_body i seq zeroCount needZero =
     (let hit = (seq ! i = 0 \<and>
                 (i = 0 \<or> i = length seq - 1 \<or> (i + 1 < length seq \<and> seq ! (i + 1) = 0)));
          seq1 = (if hit then erase_at i seq else seq);
          zc1 = (if hit then zeroCount - 1 else zeroCount)
      in if hit \<and> zc1 = needZero then (seq1, zc1, True)
         else if zc1 > needZero then
           (let found = (find_zero seq1 < length seq1);
                seq2 = (if found then erase_at (find_zero seq1) seq1 else seq1);
                zc2 = (if found then zc1 - 1 else zc1)
            in (seq2, zc2, zc2 = needZero))
         else (seq1, zc1, False))"

text \<open>
  \<^verbatim>\<open>for (int i = 1; i < seq.size() - 1; i++)\<close>, from the index \<open>i\<close> on. The bound is unsigned:
  on an empty vector \<^verbatim>\<open>seq.size() - 1\<close> wraps around, the test succeeds and \<^verbatim>\<open>seq[i]\<close> is read
  out of range. Otherwise the body runs only with \<open>i + 1 < length seq\<close>, so its reads are
  in range.
\<close>

function repairZero_for :: "nat \<Rightarrow> int list \<Rightarrow> int \<Rightarrow> int \<Rightarrow> error + int list \<times> int" where
  "repairZero_for i seq zeroCount needZero =
     (if seq = [] then Inl OutOfRange
      else if i < length seq - 1 then
        (case repairZero_body i seq zeroCount needZero of
           (seq', zeroCount', brk) \<Rightarrow>
             if brk then Inr (seq', zeroCount')
             else repairZero_for (i + 1) seq' zeroCount' needZero)
      else Inr (seq, zeroCount))"
  by pat_completeness auto
termination
  apply (relation "measure (\<lambda>(i, seq, zc, nz). length seq - i)")
   apply simp
  apply (auto simp: repairZero_body_def Let_def erase_at_def split: if_splits)
  done

declare repairZero_for.simps [simp del]

text \<open>\<^verbatim>\<open>while (zeroCount > needZero) { for ... }\<close>: \<open>None\<close> when the loop never exits.\<close>

partial_function (option) repairZero_while :: "int list \<Rightarrow> int \<Rightarrow> int \<Rightarrow> (error + int list) option" where
  "repairZero_while seq zeroCount needZero =
     (if zeroCount > needZero then
        (case repairZero_for 1 seq zeroCount needZero of
           Inl e \<Rightarrow> Some (Inl e)
         | Inr (seq', zeroCount') \<Rightarrow> repairZero_while seq' zeroCount' needZero)
      else Some (Inr seq))"

text \<open>\<^verbatim>\<open>int zeroCount = count(seq.begin(), seq.end(), 0); int needZero = vehicle - 1;\<close>\<close>

definition repairZero :: "int list \<Rightarrow> int \<Rightarrow> (error + int list) option" where
  "repairZero seq vehicle = repairZero_while seq (int (count_list seq 0)) (vehicle - 1)"

text \<open>
  The removal order of the specification, section 4.2, written from its words: (a) while the
  count is above the target and two separators are adjacent, remove the leftmost separator
  that is followed by another one; (b) then remove leftmost separators until the target is
  reached.
\<close>

fun has_adjacent :: "int list \<Rightarrow> bool" where
  "has_adjacent (a # b # rest) = ((a = 0 \<and> b = 0) \<or> has_adjacent (b # rest))"
| "has_adjacent _ = False"

fun remove_adjacent :: "int list \<Rightarrow> int list" where
  "remove_adjacent (a # b # rest) =
     (if a = 0 \<and> b = 0 then b # rest else a # remove_adjacent (b # rest))"
| "remove_adjacent xs = xs"

fun spec_phase_a :: "nat \<Rightarrow> int list \<Rightarrow> int list" where
  "spec_phase_a 0 seq = seq"
| "spec_phase_a (Suc k) seq =
     (if has_adjacent seq then spec_phase_a k (remove_adjacent seq) else seq)"

fun spec_phase_b :: "nat \<Rightarrow> int list \<Rightarrow> int list" where
  "spec_phase_b 0 seq = seq"
| "spec_phase_b (Suc k) seq = spec_phase_b k (erase_at (find_zero seq) seq)"

definition spec_repairZero :: "int list \<Rightarrow> int \<Rightarrow> int list" where
  "spec_repairZero seq vehicle =
     (let a = spec_phase_a (nat (int (count_list seq 0) - (vehicle - 1))) seq
      in spec_phase_b (nat (int (count_list a 0) - (vehicle - 1))) a)"

section \<open>CustomerRepair: \<^verbatim>\<open>repairCustomer\<close>\<close>

text \<open>\<^verbatim>\<open>for (int v : seq) if (v != 0) count[v]++;\<close>\<close>

fun count_tokens :: "int list \<Rightarrow> int list \<Rightarrow> error + int list" where
  "count_tokens cnt [] = Inr cnt"
| "count_tokens cnt (v # vs) =
     (if v = 0 then count_tokens cnt vs
      else if v < 0 \<or> int (length cnt) \<le> v then Inl OutOfRange
      else count_tokens (cnt[nat v := cnt ! nat v + 1]) vs)"

text \<open>
  The inner loop over the chromosome, with the index \<open>idx\<close> into \<^verbatim>\<open>missing\<close>. After the
  assignment \<^verbatim>\<open>v\<close> is the new id, so it is the count of the new id that is decremented.
  \<^verbatim>\<open>for (int& v : seq) {
    if (v != 0 && count[v] > 1) {
      v = missing[idx++];
      count[v]--;
      if (idx >= missing.size()) break; } }\<close>
\<close>

fun replace_dups :: "int list \<Rightarrow> nat \<Rightarrow> int list \<Rightarrow> int list \<Rightarrow> error + int list \<times> int list" where
  "replace_dups missing idx cnt [] = Inr ([], cnt)"
| "replace_dups missing idx cnt (v # vs) =
     (if v \<noteq> 0 \<and> (v < 0 \<or> int (length cnt) \<le> v) then Inl OutOfRange
      else if v \<noteq> 0 \<and> cnt ! nat v > 1 then
        (if length missing \<le> idx then Inl OutOfRange
         else let v' = missing ! idx in
           if v' < 0 \<or> int (length cnt) \<le> v' then Inl OutOfRange
           else let cnt' = cnt[nat v' := cnt ! nat v' - 1] in
             if idx + 1 \<ge> length missing then Inr (v' # vs, cnt')
             else (case replace_dups missing (idx + 1) cnt' vs of
                     Inl e \<Rightarrow> Inl e
                   | Inr (vs', cnt'') \<Rightarrow> Inr (v' # vs', cnt'')))
      else (case replace_dups missing idx cnt vs of
              Inl e \<Rightarrow> Inl e
            | Inr (vs', cnt'') \<Rightarrow> Inr (v # vs', cnt'')))"

text \<open>
  The outer loop, over the ids still to visit; the inner loop is inside it:
  \<^verbatim>\<open>for (int i = 2; i <= n; ++i) {
    if (count[i] == 0) missing.push_back(i);
    int idx = 0;
    for (int& v : seq) ... }\<close>
  The result is the chromosome together with the final \<^verbatim>\<open>missing\<close> list.
\<close>

fun repair_loop :: "int list \<Rightarrow> int list \<Rightarrow> int list \<Rightarrow> int list \<Rightarrow> error + int list \<times> int list" where
  "repair_loop [] seq cnt missing = Inr (seq, missing)"
| "repair_loop (i # ids) seq cnt missing =
     (let missing' = (if cnt ! nat i = 0 then missing @ [i] else missing)
      in case replace_dups missing' 0 cnt seq of
           Inl e \<Rightarrow> Inl e
         | Inr (seq', cnt') \<Rightarrow> repair_loop ids seq' cnt' missing')"

text \<open>\<^verbatim>\<open>vector<int> count(n+1, 0);\<close> throws \<^verbatim>\<open>std::length_error\<close> for a negative size.\<close>

definition repairCustomer_state :: "int list \<Rightarrow> int \<Rightarrow> error + int list \<times> int list" where
  "repairCustomer_state seq n =
     (if n + 1 < 0 then Inl LengthError
      else case count_tokens (replicate (nat (n + 1)) 0) seq of
             Inl e \<Rightarrow> Inl e
           | Inr cnt \<Rightarrow> repair_loop [2..n] seq cnt [])"

definition repairCustomer :: "int list \<Rightarrow> int \<Rightarrow> error + int list" where
  "repairCustomer seq n =
     (case repairCustomer_state seq n of
        Inl e \<Rightarrow> Inl e
      | Inr (seq', missing) \<Rightarrow> Inr seq')"

text \<open>\<^verbatim>\<open>repairZero(seq, vehicle); repairCustomer(seq, n);\<close> as in \<^verbatim>\<open>generatePopulation\<close>.\<close>

definition repair_individual :: "int list \<Rightarrow> int \<Rightarrow> int \<Rightarrow> (error + int list) option" where
  "repair_individual seq vehicle n =
     (case repairZero seq vehicle of
        None \<Rightarrow> None
      | Some (Inl e) \<Rightarrow> Some (Inl e)
      | Some (Inr seq') \<Rightarrow> Some (repairCustomer seq' n))"

text \<open>
  The two quantities of the specification, section 4.3: the customers with no occurrence, in
  ascending order, and the number of occurrences beyond the first of each id.
\<close>

definition missing_ids :: "int list \<Rightarrow> int \<Rightarrow> int list" where
  "missing_ids seq n = filter (\<lambda>i. count_list seq i = 0) [2..n]"

definition duplicate_slots :: "int list \<Rightarrow> nat" where
  "duplicate_slots seq =
     length (filter (\<lambda>v. v \<noteq> 0) seq) - length (remdups (filter (\<lambda>v. v \<noteq> 0) seq))"

text \<open>A valid chromosome (specification, section 3).\<close>

definition valid_chromosome :: "int list \<Rightarrow> int \<Rightarrow> int \<Rightarrow> bool" where
  "valid_chromosome seq vehicle n \<longleftrightarrow>
     int (count_list seq 0) = vehicle - 1 \<and> mset (filter (\<lambda>v. v \<noteq> 0) seq) = mset [2..n]"

section \<open>Decoder: \<^verbatim>\<open>decodeSeq\<close>\<close>

text \<open>
  \<^verbatim>\<open>for (int v : seq) {
    if (v == 0) { currentRoute.push_back(depot); routes.push_back(currentRoute); currentRoute = {depot}; }
    else currentRoute.push_back(v); }\<close>
\<close>

fun decode_loop :: "int \<Rightarrow> int list \<Rightarrow> int list list \<Rightarrow> int list \<Rightarrow> int list list \<times> int list" where
  "decode_loop depot [] routes currentRoute = (routes, currentRoute)"
| "decode_loop depot (v # vs) routes currentRoute =
     (if v = 0 then decode_loop depot vs (routes @ [currentRoute @ [depot]]) [depot]
      else decode_loop depot vs routes (currentRoute @ [v]))"

text \<open>\<^verbatim>\<open>if (currentRoute.size() > 1) { currentRoute.push_back(depot); routes.push_back(currentRoute); }\<close>\<close>

definition decodeSeq :: "int list \<Rightarrow> int \<Rightarrow> int list list" where
  "decodeSeq seq depot =
     (case decode_loop depot seq [] [depot] of
        (routes, currentRoute) \<Rightarrow>
          if length currentRoute > 1 then routes @ [currentRoute @ [depot]] else routes)"

text \<open>The number of routes that the final test drops: 1 when the last route has no customer.\<close>

definition suppressed_routes :: "int list \<Rightarrow> int \<Rightarrow> nat" where
  "suppressed_routes seq depot =
     (case decode_loop depot seq [] [depot] of
        (routes, currentRoute) \<Rightarrow> if length currentRoute > 1 then 0 else 1)"

section \<open>Evaluator\<close>

text \<open>
  The interior of a route: the positions \<^verbatim>\<open>1 .. route.size() - 2\<close> that the loops of
  \<^verbatim>\<open>routeDemand\<close> and \<^verbatim>\<open>checkSolution\<close> visit.
\<close>

definition interior :: "int list \<Rightarrow> int list" where
  "interior route = map (\<lambda>i. route ! i) [1..<length route - 1]"

text \<open>The value of a 32-bit signed integer after an addition that leaves its range.\<close>

definition wrap_int32 :: "int \<Rightarrow> int" where
  "wrap_int32 x = (x + 2147483648) mod 4294967296 - 2147483648"

text \<open>
  \<^verbatim>\<open>int sum = 0;
  for (size_t i = 1; i < route.size() - 1; ++i) sum += demand[route[i]];\<close>
  On an empty route the unsigned bound wraps around and \<^verbatim>\<open>route[1]\<close> is read out of range.
\<close>

definition routeDemand :: "int list \<Rightarrow> (int \<Rightarrow> int) \<Rightarrow> error + int" where
  "routeDemand route demand =
     (if route = [] then Inl OutOfRange
      else Inr (fold (\<lambda>i sum. wrap_int32 (sum + demand (route ! i))) [1..<length route - 1] 0))"

text \<open>C's \<^verbatim>\<open>round\<close>: to the nearest integer, halfway cases away from zero.\<close>

definition cpp_round :: "real \<Rightarrow> real" where
  "cpp_round x = (if 0 \<le> x then of_int \<lfloor>x + 1 / 2\<rfloor> else of_int \<lceil>x - 1 / 2\<rceil>)"

definition euclidDist :: "real \<Rightarrow> real \<Rightarrow> real \<Rightarrow> real \<Rightarrow> real" where
  "euclidDist x1 y1 x2 y2 =
     cpp_round (sqrt ((x1 - x2) * (x1 - x2) + (y1 - y2) * (y1 - y2)) * 100) / 100"

text \<open>
  The matrix of \<^verbatim>\<open>buildDist\<close>, with \<^verbatim>\<open>n = coords.size() - 1\<close>: \<open>n + 1\<close> rows of \<open>n + 1\<close>
  zeros, filled for \<open>1 \<le> i, j \<le> n\<close>.
  \<^verbatim>\<open>vector<vector<double>> dist(n+1, vector<double>(n+1, 0));
  for (int i = 1; i <= n; ++i) for (int j = 1; j <= n; ++j)
    dist[i][j] = euclidDist(coords[i].first, coords[i].second, coords[j].first, coords[j].second);\<close>
\<close>

definition buildDist :: "(real \<times> real) list \<Rightarrow> real list list" where
  "buildDist coords =
     map (\<lambda>i. map (\<lambda>j. if 1 \<le> i \<and> 1 \<le> j
                         then euclidDist (fst (coords ! i)) (snd (coords ! i))
                                (fst (coords ! j)) (snd (coords ! j))
                         else 0)
                [0..<length coords])
         [0..<length coords]"

text \<open>The read \<^verbatim>\<open>dist[a][b]\<close> of the matrix.\<close>

definition dist_at :: "real list list \<Rightarrow> int \<Rightarrow> int \<Rightarrow> error + real" where
  "dist_at distm a b =
     (if 0 \<le> a \<and> a < int (length distm) \<and> 0 \<le> b \<and> b < int (length (distm ! nat a))
      then Inr (distm ! nat a ! nat b) else Inl OutOfRange)"

text \<open>
  \<^verbatim>\<open>for (size_t i = 0; i < route.size() - 1; ++i) cost += dist[route[i]][route[i+1]];\<close>
  over the indices still to visit.
\<close>

fun routeCost_loop :: "real list list \<Rightarrow> int list \<Rightarrow> nat list \<Rightarrow> real \<Rightarrow> error + real" where
  "routeCost_loop distm route [] cost = Inr cost"
| "routeCost_loop distm route (i # rest) cost =
     (case dist_at distm (route ! i) (route ! (i + 1)) of
        Inl e \<Rightarrow> Inl e
      | Inr d \<Rightarrow> routeCost_loop distm route rest (cost + d))"

text \<open>\<^verbatim>\<open>return round(cost * 100.0) / 100.0;\<close>\<close>

definition routeCost :: "int list \<Rightarrow> real list list \<Rightarrow> error + real" where
  "routeCost route distm =
     (if route = [] then Inl OutOfRange
      else case routeCost_loop distm route [0..<length route - 1] 0 of
             Inl e \<Rightarrow> Inl e
           | Inr cost \<Rightarrow> Inr (cpp_round (cost * 100) / 100))"







text \<open>
  The marking loop of \<^verbatim>\<open>checkSolution\<close> over the interior of one route; \<open>Inr None\<close> is
  \<^verbatim>\<open>return false\<close>.
  \<^verbatim>\<open>if (visited[route[i]]) return false;
  visited[route[i]] = true;\<close>
\<close>

fun mark_visited :: "bool list \<Rightarrow> int list \<Rightarrow> error + bool list option" where
  "mark_visited visited [] = Inr (Some visited)"
| "mark_visited visited (c # cs) =
     (if c < 0 \<or> int (length visited) \<le> c then Inl OutOfRange
      else if visited ! nat c then Inr None
      else mark_visited (visited[nat c := True]) cs)"

text \<open>
  \<^verbatim>\<open>for (const auto& route : routes) {
    if (routeDemand(route, demand) > capacity) return false;
    for (size_t i = 1; i < route.size() - 1; ++i) ... }\<close>
\<close>

fun check_routes :: "(int \<Rightarrow> int) \<Rightarrow> int \<Rightarrow> bool list \<Rightarrow> int list list \<Rightarrow> error + bool list option" where
  "check_routes demand capacity visited [] = Inr (Some visited)"
| "check_routes demand capacity visited (route # routes) =
     (case routeDemand route demand of
        Inl e \<Rightarrow> Inl e
      | Inr d \<Rightarrow>
          if d > capacity then Inr None
          else (case mark_visited visited (interior route) of
                  Inl e \<Rightarrow> Inl e
                | Inr None \<Rightarrow> Inr None
                | Inr (Some visited') \<Rightarrow> check_routes demand capacity visited' routes))"

text \<open>
  \<^verbatim>\<open>vector<bool> visited(n+1, false); ...
  for (int i = 2; i <= n; ++i) if (!visited[i]) return false;
  return true;\<close>
\<close>

definition checkSolution :: "int list list \<Rightarrow> (int \<Rightarrow> int) \<Rightarrow> int \<Rightarrow> int \<Rightarrow> error + bool" where
  "checkSolution routes demand capacity n =
     (if n + 1 < 0 then Inl LengthError
      else case check_routes demand capacity (replicate (nat (n + 1)) False) routes of
             Inl e \<Rightarrow> Inl e
           | Inr None \<Rightarrow> Inr False
           | Inr (Some visited) \<Rightarrow> Inr (list_all (\<lambda>i. visited ! nat i) [2..n]))"

text \<open>
  The condition under which the loop over the routes of \<^verbatim>\<open>checkSolution\<close> runs to its end,
  used to state its invariant.
\<close>

definition routes_ok :: "(int \<Rightarrow> int) \<Rightarrow> int \<Rightarrow> bool list \<Rightarrow> int list list \<Rightarrow> bool" where
  "routes_ok demand capacity visited routes \<longleftrightarrow>
     (\<forall>r\<in>set routes. sum_list (map demand (interior r)) \<le> capacity) \<and>
     distinct (concat (map interior routes)) \<and>
     (\<forall>c\<in>set (concat (map interior routes)). \<not> visited ! nat c)"

text \<open>The tokens read so far by the decoder, recovered from its state.\<close>

definition tokens_of :: "int list list \<Rightarrow> int list \<Rightarrow> int list" where
  "tokens_of routes cur = concat (map (\<lambda>r. interior r @ [0]) routes) @ tl cur"

section \<open>Properties of the generator\<close>

lemma pack_customers_concat:
  "pack_customers demand capacity customers (groups, cur, load) = (groups', cur', load') \<Longrightarrow>
     concat groups' @ cur' = concat groups @ cur @ customers"
proof (induction customers arbitrary: groups cur load)
  case Nil
  then show ?case by simp
next
  case (Cons c cs)
  then show ?case by (auto split: if_splits)
qed

lemma concat_close_groups:
  "concat (close_groups (pack_customers demand capacity customers ([], [], 0))) = customers"
proof -
  obtain g c l where p: "pack_customers demand capacity customers ([], [], 0) = (g, c, l)"
    by (cases "pack_customers demand capacity customers ([], [], 0)")
  from pack_customers_concat[OF p] show ?thesis by (auto simp: p)
qed

lemma concat_make_groups: "concat (make_groups vehicle capacity demand customers) = customers"
  by (simp add: make_groups_def pad_groups_def concat_close_groups)

lemma length_make_groups:
  "int (length (make_groups vehicle capacity demand customers)) =
     max (int (length (close_groups (pack_customers demand capacity customers ([], [], 0))))) vehicle"
  by (simp add: make_groups_def pad_groups_def)

lemma filter_join_groups:
  "filter (\<lambda>v. v \<noteq> 0) (join_groups gs) = filter (\<lambda>v. v \<noteq> 0) (concat gs)"
  by (induction gs) auto

lemma count_join_groups:
  "count_list (join_groups gs) 0 = (length gs - 1) + count_list (concat gs) 0"
proof (induction gs)
  case Nil
  then show ?case by simp
next
  case (Cons g gs)
  then show ?case by (cases gs) auto
qed

lemma join_groups_butlast:
  "gs \<noteq> [] \<Longrightarrow> join_groups gs = concat (map (\<lambda>g. g @ [0]) (butlast gs)) @ last gs"
  by (induction gs) auto

lemma shuffle_nonzero: "mset customers = mset [2..n] \<Longrightarrow> 0 \<notin> set customers"
proof -
  assume "mset customers = mset [2..n]"
  then have "set customers = set [2..n]" by (rule mset_eq_setD)
  then show ?thesis by simp
qed

lemma hd_join_groups:
  "0 \<notin> set (concat gs) \<Longrightarrow>
     (join_groups gs \<noteq> [] \<and> hd (join_groups gs) = 0) \<longleftrightarrow> (2 \<le> length gs \<and> hd gs = [])"
proof (cases gs)
  case Nil
  then show ?thesis by simp
next
  case (Cons g rest)
  assume "0 \<notin> set (concat gs)"
  with Cons show ?thesis
    by (cases g; cases rest) auto
qed

lemma last_join_groups:
  "0 \<notin> set (concat gs) \<Longrightarrow>
     (join_groups gs \<noteq> [] \<and> last (join_groups gs) = 0) \<longleftrightarrow> (2 \<le> length gs \<and> last gs = [])"
proof (induction gs)
  case Nil
  then show ?case by simp
next
  case (Cons g gs)
  show ?case
  proof (cases "gs = []")
    case True
    with Cons.prems show ?thesis by (auto dest: last_in_set)
  next
    case False
    note ne = this
    from Cons.prems have z: "0 \<notin> set (concat gs)" by simp
    show ?thesis
    proof (cases "join_groups gs = []")
      case True
      with ne have "length gs = 1 \<and> last gs = []"
        by (cases gs) (auto split: if_splits)
      with True ne show ?thesis by (cases gs) auto
    next
      case False
      have "last gs = [] \<Longrightarrow> 2 \<le> length gs"
      proof (cases gs)
        case Nil
        with ne show ?thesis by simp
      next
        case (Cons h hs)
        assume "last gs = []"
        with False Cons show ?thesis by (cases hs) auto
      qed
      with Cons.IH[OF z] ne False show ?thesis by auto
    qed
  qed
qed

text \<open>
  Two customers that fit one bin, two vehicles: the padded empty bin puts a separator at the
  end. One customer whose demand exceeds the capacity: the empty first bin puts a separator at
  the start.
\<close>

theorem initSeq_trailing_separator:
  "mset [2, 3] = mset [2..3] \<and> initSeq 2 10 (\<lambda>c. 1) [2, 3] = [2, 3, 0] \<and>
   last (initSeq 2 10 (\<lambda>c. 1) [2, 3]) = 0 \<and>
   mset [2] = mset [2..2] \<and> initSeq 1 1 (\<lambda>c. 5) [2] = [0, 2] \<and>
   hd (initSeq 1 1 (\<lambda>c. 5) [2]) = 0"
  by (simp add: initSeq_def make_groups_def pad_groups_def upto.simps)

text \<open>
  C10, amended. The bins of a generated chromosome are consecutive pieces of the shuffled
  customer list, every bin but the last is followed by exactly one separator, and the number
  of separators is the number of bins minus one. The chromosome begins with a separator
  exactly when there are at least two bins and the first is empty, and ends with a separator
  exactly when there are at least two bins and the last is empty.
\<close>

theorem initSeq_separators:
  assumes "mset customers = mset [2..n]"
  shows "concat (make_groups vehicle capacity demand customers) = customers \<and>
         (make_groups vehicle capacity demand customers \<noteq> [] \<longrightarrow>
            initSeq vehicle capacity demand customers =
              concat (map (\<lambda>g. g @ [0]) (butlast (make_groups vehicle capacity demand customers)))
              @ last (make_groups vehicle capacity demand customers)) \<and>
         count_list (initSeq vehicle capacity demand customers) 0 =
           length (make_groups vehicle capacity demand customers) - 1 \<and>
         ((initSeq vehicle capacity demand customers \<noteq> [] \<and>
           hd (initSeq vehicle capacity demand customers) = 0) \<longleftrightarrow>
          (2 \<le> length (make_groups vehicle capacity demand customers) \<and>
           hd (make_groups vehicle capacity demand customers) = [])) \<and>
         ((initSeq vehicle capacity demand customers \<noteq> [] \<and>
           last (initSeq vehicle capacity demand customers) = 0) \<longleftrightarrow>
          (2 \<le> length (make_groups vehicle capacity demand customers) \<and>
           last (make_groups vehicle capacity demand customers) = []))"
proof -
  let ?gs = "make_groups vehicle capacity demand customers"
  have nz: "0 \<notin> set (concat ?gs)"
    using shuffle_nonzero[OF assms] by (simp add: concat_make_groups)
  have c0: "count_list (concat ?gs) 0 = 0"
    using nz count_list_0_iff[of "concat ?gs" 0] by blast
  show ?thesis
    unfolding initSeq_def
    using hd_join_groups[OF nz] last_join_groups[OF nz] c0
    by (simp add: concat_make_groups join_groups_butlast count_join_groups)
qed

text \<open>Five customers with demand 4 each and capacity 10: the bins \<open>[5, 3]\<close>, \<open>[2, 6]\<close>, \<open>[4]\<close>.\<close>

theorem initSeq_separators_witness:
  "mset [5, 3, 2, 6, 4] = mset [2..6] \<and>
   make_groups 2 10 (\<lambda>c. 4) [5, 3, 2, 6, 4] = [ [5, 3], [2, 6], [4] ] \<and>
   initSeq 2 10 (\<lambda>c. 4) [5, 3, 2, 6, 4] = [5, 3, 0, 2, 6, 0, 4] \<and>
   count_list (initSeq 2 10 (\<lambda>c. 4) [5, 3, 2, 6, 4]) 0 = 2"
proof -
  have h: "mset [5, 3, 2, 6, 4] = mset [2..6]" by (simp add: upto.simps)
  have g: "make_groups 2 10 (\<lambda>c. 4) [5, 3, 2, 6, 4] = [ [5, 3], [2, 6], [4] ]"
    by (simp add: make_groups_def pad_groups_def)
  from initSeq_separators[OF h, of 2 10 "\<lambda>c. 4"] h g
  show ?thesis by simp
qed

lemma initPopulationSeq_member:
  "seq \<in> set (initPopulationSeq vehicle capacity demand perms) \<longleftrightarrow>
     (\<exists>p\<in>set perms. seq = initSeq vehicle capacity demand p)"
  by (auto simp: initPopulationSeq_def)

section \<open>Properties of the decoder\<close>

lemma interior_butlast_tl: "interior route = butlast (tl route)"
  by (rule nth_equalityI) (auto simp: interior_def nth_butlast nth_tl)

lemma interior_wrap [simp]: "interior (d # c @ [e]) = c"
  by (simp add: interior_butlast_tl butlast_append)

lemma join_groups_snoc:
  "join_groups (gs @ [g]) = concat (map (\<lambda>x. x @ [0]) gs) @ g"
  by (induction gs) auto

lemma join_groups_closed:
  "gs \<noteq> [] \<Longrightarrow> concat (map (\<lambda>x. x @ [0]) gs) = join_groups gs @ [0]"
  by (induction gs) auto

lemma decode_loop_inv:
  "decode_loop depot seq routes cur = (routes', cur') \<Longrightarrow> cur \<noteq> [] \<Longrightarrow>
     tokens_of routes' cur' = tokens_of routes cur @ seq \<and> cur' \<noteq> [] \<and>
     length routes' = length routes + count_list seq 0"
proof (induction seq arbitrary: routes cur)
  case Nil
  then show ?case by simp
next
  case (Cons v vs)
  show ?case
  proof (cases "v = 0")
    case True
    with Cons.prems have "decode_loop depot vs (routes @ [cur @ [depot] ]) [depot] = (routes', cur')"
      by simp
    from Cons.IH[OF this] Cons.prems(2) True show ?thesis
      by (cases cur) (auto simp: tokens_of_def)
  next
    case False
    with Cons.prems have "decode_loop depot vs routes (cur @ [v]) = (routes', cur')"
      by simp
    from Cons.IH[OF this] Cons.prems(2) False show ?thesis
      by (cases cur) (auto simp: tokens_of_def)
  qed
qed

lemma decodeSeq_general:
  "int (length (decodeSeq seq depot)) = int (count_list seq 0) + 1 - int (suppressed_routes seq depot) \<and>
   (suppressed_routes seq depot = 0 \<longrightarrow> join_groups (map interior (decodeSeq seq depot)) = seq) \<and>
   (suppressed_routes seq depot = 1 \<longrightarrow>
      seq = [] \<or> seq = join_groups (map interior (decodeSeq seq depot)) @ [0])"
proof -
  obtain routes cur where dl: "decode_loop depot seq [] [depot] = (routes, cur)"
    by (cases "decode_loop depot seq [] [depot]")
  from decode_loop_inv[OF dl] have
    tok: "tokens_of routes cur = seq" and ne: "cur \<noteq> []" and len: "length routes = count_list seq 0"
    by (simp_all add: tokens_of_def)
  show ?thesis
  proof (cases "length cur > 1")
    case True
    then obtain d c where cur: "cur = d # c" by (cases cur) auto
    have "join_groups (map interior (routes @ [cur @ [depot] ])) = seq"
      using tok by (simp add: join_groups_snoc cur tokens_of_def comp_def)
    with True dl len show ?thesis
      by (simp add: decodeSeq_def suppressed_routes_def)
  next
    case False
    with ne have "tl cur = []" by (cases cur) auto
    with tok have seq: "seq = concat (map (\<lambda>x. x @ [0]) (map interior routes))"
      by (simp add: tokens_of_def comp_def)
    have "seq = [] \<or> seq = join_groups (map interior routes) @ [0]"
    proof (cases "routes = []")
      case True with seq show ?thesis by simp
    next
      case False
      then have "map interior routes \<noteq> []" by simp
      from join_groups_closed[OF this] seq show ?thesis by simp
    qed
    with False dl len show ?thesis
      by (simp add: decodeSeq_def suppressed_routes_def)
  qed
qed

lemma suppressed_le: "suppressed_routes seq depot = 0 \<or> suppressed_routes seq depot = 1"
  by (simp add: suppressed_routes_def split: prod.splits)

text \<open>
  The chromosome \<open>[2, 0]\<close> is valid for two vehicles and \<open>n = 2\<close>; it decodes to the single
  route \<open>[1, 2, 1]\<close>, and joining the interiors of the emitted routes gives \<open>[2]\<close>.
\<close>

theorem decodeSeq_roundtrip_counterexample:
  "valid_chromosome [2, 0] 2 2 \<and> join_groups (map interior (decodeSeq [2, 0] 1)) \<noteq> [2, 0]"
  by (simp add: valid_chromosome_def decodeSeq_def interior_def upto.simps)

text \<open>
  C8, amended. For a valid chromosome the decoder emits \<open>vehicle\<close> routes minus the number
  of suppressed trailing routes, which is 0 or 1. When no route is suppressed, joining the
  interiors of the routes with one separator between consecutive routes gives back the
  chromosome; when one is suppressed, it gives back the chromosome without its final separator
  (the chromosome is then empty or ends with that separator).
\<close>

theorem decodeSeq_roundtrip:
  assumes "valid_chromosome seq vehicle n"
  shows "int (length (decodeSeq seq depot)) = vehicle - int (suppressed_routes seq depot) \<and>
         suppressed_routes seq depot \<in> {0, 1} \<and>
         (suppressed_routes seq depot = 0 \<longrightarrow> join_groups (map interior (decodeSeq seq depot)) = seq) \<and>
         (suppressed_routes seq depot = 1 \<longrightarrow>
            seq = [] \<or> seq = join_groups (map interior (decodeSeq seq depot)) @ [0])"
  using assms decodeSeq_general[of seq depot] suppressed_le[of seq depot]
  by (auto simp: valid_chromosome_def)

text \<open>Both cases: \<open>[2, 3, 0, 4]\<close> and \<open>[2, 0]\<close>, for two vehicles.\<close>

theorem decodeSeq_roundtrip_witness:
  "valid_chromosome [2, 3, 0, 4] 2 4 \<and> decodeSeq [2, 3, 0, 4] 1 = [ [1, 2, 3, 1], [1, 4, 1] ] \<and>
   suppressed_routes [2, 3, 0, 4] 1 = 0 \<and>
   join_groups (map interior (decodeSeq [2, 3, 0, 4] 1)) = [2, 3, 0, 4] \<and>
   valid_chromosome [2, 0] 2 2 \<and> decodeSeq [2, 0] 1 = [ [1, 2, 1] ] \<and>
   suppressed_routes [2, 0] 1 = 1 \<and>
   [2, 0] = join_groups (map interior (decodeSeq [2, 0] 1)) @ [0]"
proof -
  have v: "valid_chromosome [2, 3, 0, 4] 2 4"
    by (simp add: valid_chromosome_def upto.simps)
  have s: "suppressed_routes [2, 3, 0, 4] 1 = 0"
    by (simp add: suppressed_routes_def)
  have d: "decodeSeq [2, 3, 0, 4] 1 = [ [1, 2, 3, 1], [1, 4, 1] ]"
    by (simp add: decodeSeq_def)
  have v': "valid_chromosome [2, 0] 2 2"
    by (simp add: valid_chromosome_def upto.simps)
  have s': "suppressed_routes [2, 0] 1 = 1"
    by (simp add: suppressed_routes_def)
  have d': "decodeSeq [2, 0] 1 = [ [1, 2, 1] ]"
    by (simp add: decodeSeq_def)
  from decodeSeq_roundtrip[OF v, of 1] decodeSeq_roundtrip[OF v', of 1] s v d s' v' d'
  show ?thesis by simp
qed

lemma decode_loop_append:
  "decode_loop depot (xs @ ys) routes cur =
     (case decode_loop depot xs routes cur of (r, c) \<Rightarrow> decode_loop depot ys r c)"
  by (induction xs arbitrary: routes cur) auto

lemma decode_loop_prefix:
  "decode_loop depot seq routes cur = (routes', cur') \<Longrightarrow>
     \<exists>ext. routes' = routes @ ext \<and> length ext = count_list seq 0"
proof (induction seq arbitrary: routes cur)
  case Nil
  then show ?case by simp
next
  case (Cons v vs)
  show ?case
  proof (cases "v = 0")
    case True
    with Cons.prems have "decode_loop depot vs (routes @ [cur @ [depot] ]) [depot] = (routes', cur')"
      by simp
    from Cons.IH[OF this] True show ?thesis by auto
  next
    case False
    with Cons.prems have "decode_loop depot vs routes (cur @ [v]) = (routes', cur')"
      by simp
    from Cons.IH[OF this] False show ?thesis by auto
  qed
qed

lemma decodeSeq_adjacent:
  "count_list pre 0 + 1 < length (decodeSeq (pre @ [0, 0] @ post) depot) \<and>
   decodeSeq (pre @ [0, 0] @ post) depot ! (count_list pre 0 + 1) = [depot, depot]"
proof -
  obtain r1 c1 where p: "decode_loop depot pre [] [depot] = (r1, c1)"
    by (cases "decode_loop depot pre [] [depot]")
  from decode_loop_prefix[OF p] have l1: "length r1 = count_list pre 0" by simp
  obtain r2 c2 where q: "decode_loop depot post (r1 @ [c1 @ [depot] ] @ [ [depot, depot] ]) [depot] = (r2, c2)"
    by (cases "decode_loop depot post (r1 @ [c1 @ [depot] ] @ [ [depot, depot] ]) [depot]")
  from decode_loop_prefix[OF q] obtain ext where
    r2: "r2 = (r1 @ [c1 @ [depot] ] @ [ [depot, depot] ]) @ ext" by blast
  have dl: "decode_loop depot (pre @ [0, 0] @ post) [] [depot] = (r2, c2)"
    using p q by (simp add: decode_loop_append)
  have idx: "r2 ! (count_list pre 0 + 1) = [depot, depot]"
    using l1 by (simp add: r2 nth_append)
  have len: "count_list pre 0 + 1 < length r2"
    using l1 by (simp add: r2)
  show ?thesis
    using idx len by (simp add: decodeSeq_def dl nth_append del: append_assoc append.simps)
qed

lemma decodeSeq_trailing:
  "length (decodeSeq (pre @ [0]) depot) = count_list pre 0 + 1"
proof -
  obtain r1 c1 where p: "decode_loop depot pre [] [depot] = (r1, c1)"
    by (cases "decode_loop depot pre [] [depot]")
  from decode_loop_prefix[OF p] have l1: "length r1 = count_list pre 0" by simp
  show ?thesis
    using l1 by (simp add: decodeSeq_def decode_loop_append p)
qed

lemma decodeSeq_last_nonempty:
  assumes "v \<noteq> 0"
  shows "length (decodeSeq (pre @ [v]) depot) = count_list pre 0 + 1"
proof -
  obtain r1 c1 where p: "decode_loop depot pre [] [depot] = (r1, c1)"
    by (cases "decode_loop depot pre [] [depot]")
  from decode_loop_prefix[OF p] have l1: "length r1 = count_list pre 0" by simp
  from decode_loop_inv[OF p] have "c1 \<noteq> []" by simp
  then have "length (c1 @ [v]) > 1" by (cases c1) auto
  with assms l1 show ?thesis
    by (simp add: decodeSeq_def decode_loop_append p)
qed

lemma decodeSeq_leading:
  "decodeSeq (0 # post) depot ! 0 = [depot, depot]"
proof -
  obtain r2 c2 where q: "decode_loop depot post [ [depot, depot] ] [depot] = (r2, c2)"
    by (cases "decode_loop depot post [ [depot, depot] ] [depot]")
  from decode_loop_prefix[OF q] obtain ext where r2: "r2 = [ [depot, depot] ] @ ext" by blast
  show ?thesis
    using q by (simp add: decodeSeq_def r2)
qed

lemma decode_loop_zero_free:
  "0 \<notin> set g \<Longrightarrow> decode_loop depot g routes cur = (routes, cur @ g)"
  by (induction g arbitrary: cur) auto

lemma decode_loop_join:
  "\<forall>h\<in>set (g # rest). 0 \<notin> set h \<Longrightarrow>
     decode_loop depot (join_groups (g # rest)) routes cur =
       (if rest = [] then (routes, cur @ g)
        else (routes @ [cur @ g @ [depot]] @ map (\<lambda>h. depot # h @ [depot]) (butlast rest),
              depot # last rest))"
proof (induction rest arbitrary: g routes cur)
  case Nil
  then show ?case by (simp add: decode_loop_zero_free)
next
  case (Cons h rest)
  from Cons.prems have g: "0 \<notin> set g" and hs: "\<forall>x\<in>set (h # rest). 0 \<notin> set x" by simp_all
  have "decode_loop depot (join_groups (g # h # rest)) routes cur =
        decode_loop depot (join_groups (h # rest)) (routes @ [cur @ g @ [depot]]) [depot]"
    by (simp add: decode_loop_append decode_loop_zero_free[OF g])
  also note Cons.IH[OF hs]
  finally show ?case by simp
qed

lemma decodeSeq_bins:
  assumes "\<forall>g\<in>set gs. 0 \<notin> set g"
  shows "decodeSeq (join_groups gs) depot =
           map (\<lambda>g. depot # g @ [depot]) (if gs \<noteq> [] \<and> last gs = [] then butlast gs else gs)"
proof (cases gs)
  case Nil
  then show ?thesis by (simp add: decodeSeq_def)
next
  case (Cons g rest)
  with assms have a: "\<forall>h\<in>set (g # rest). 0 \<notin> set h" by simp
  show ?thesis
  proof (cases "rest = []")
    case True
    with Cons decode_loop_join[OF a, of depot "[]" "[depot]"] show ?thesis
      by (simp add: decodeSeq_def)
  next
    case False
    have "map (\<lambda>g. depot # g @ [depot]) rest =
          map (\<lambda>g. depot # g @ [depot]) (butlast rest @ [last rest])"
      using False by simp
    then have m: "map (\<lambda>g. depot # g @ [depot]) rest =
          map (\<lambda>g. depot # g @ [depot]) (butlast rest) @ [depot # last rest @ [depot]]"
      by simp
    from False Cons decode_loop_join[OF a, of depot "[]" "[depot]"] show ?thesis
      by (simp add: decodeSeq_def m)
  qed
qed

lemma cpp_round_0: "cpp_round 0 = 0"
  by (simp add: cpp_round_def)

lemma euclidDist_same: "euclidDist x y x y = 0"
  by (simp add: euclidDist_def cpp_round_0)

lemma dist_at_buildDist:
  assumes "0 \<le> a" "a < int (length coords)" "0 \<le> b" "b < int (length coords)"
  shows "dist_at (buildDist coords) a b =
           Inr (if 1 \<le> a \<and> 1 \<le> b
                then euclidDist (fst (coords ! nat a)) (snd (coords ! nat a))
                       (fst (coords ! nat b)) (snd (coords ! nat b))
                else 0)"
proof -
  from assms have a: "nat a < length coords" and b: "nat b < length coords" by simp_all
  have la: "length (buildDist coords) = length coords" by (simp add: buildDist_def)
  have row: "buildDist coords ! nat a =
      map (\<lambda>j. if 1 \<le> nat a \<and> 1 \<le> j
                 then euclidDist (fst (coords ! nat a)) (snd (coords ! nat a))
                        (fst (coords ! j)) (snd (coords ! j))
                 else 0) [0..<length coords]"
    using a by (simp add: buildDist_def)
  have "1 \<le> nat a \<longleftrightarrow> 1 \<le> a" "1 \<le> nat b \<longleftrightarrow> 1 \<le> b" by auto
  with assms a b la show ?thesis
    by (simp add: dist_at_def row)
qed

lemma routeCost_depot_depot:
  assumes "0 \<le> depot" "depot < int (length coords)"
  shows "routeCost [depot, depot] (buildDist coords) = Inr 0"
  using dist_at_buildDist[OF assms assms]
  by (simp add: routeCost_def euclidDist_same cpp_round_0)

text \<open>
  C7. Every bin of a chromosome is emitted as the route \<open>depot # bin @ [depot]\<close>, an empty
  bin (at the start, or between two adjacent separators) as the route \<open>[depot, depot]\<close>;
  only an empty bin at the very end is not emitted, and a non-empty last bin is. The route
  \<open>[depot, depot]\<close> has demand 0 and, for a depot within the distance matrix, cost 0. The
  chromosome \<open>[0, 0]\<close> with depot 1 decodes to the two routes \<open>[1, 1]\<close> and
  \<open>[1, 1]\<close>.
\<close>

theorem decodeSeq_empty_routes:
  "((\<forall>g\<in>set gs. 0 \<notin> set g) \<longrightarrow>
      decodeSeq (join_groups gs) depot =
        map (\<lambda>g. depot # g @ [depot]) (if gs \<noteq> [] \<and> last gs = [] then butlast gs else gs)) \<and>
   decodeSeq [0, 0] 1 = [ [1, 1], [1, 1] ] \<and>
   count_list pre 0 + 1 < length (decodeSeq (pre @ [0, 0] @ post) depot) \<and>
   decodeSeq (pre @ [0, 0] @ post) depot ! (count_list pre 0 + 1) = [depot, depot] \<and>
   decodeSeq (0 # post) depot ! 0 = [depot, depot] \<and>
   length (decodeSeq (pre @ [0]) depot) = count_list (pre @ [0]) 0 \<and>
   (v \<noteq> 0 \<longrightarrow> length (decodeSeq (pre @ [v]) depot) = count_list (pre @ [v]) 0 + 1) \<and>
   routeDemand [depot, depot] demand = Inr 0 \<and>
   (0 \<le> depot \<and> depot < int (length coords) \<longrightarrow>
      routeCost [depot, depot] (buildDist coords) = Inr 0)"
proof -
  have a: "decodeSeq [0, 0] 1 = [ [1, 1], [1, 1] ]"
    by (simp add: decodeSeq_def)
  have d: "routeDemand [depot, depot] demand = Inr 0"
    by (simp add: routeDemand_def)
  show ?thesis
    using a d decodeSeq_adjacent[of pre post depot] decodeSeq_trailing[of pre depot]
      decodeSeq_bins[of gs depot] decodeSeq_leading[of post depot]
      decodeSeq_last_nonempty[of v pre depot] routeCost_depot_depot[of depot coords]
    by simp
qed

text \<open>
  The bins \<open>[2, 3]\<close>, \<open>[]\<close>, \<open>[4]\<close>, \<open>[]\<close>, that is the chromosome
  \<open>[2, 3, 0, 0, 4, 0]\<close>, and the cost of the empty route for the depot 1 at \<open>(3, 4)\<close>.
\<close>

theorem decodeSeq_empty_routes_witness:
  "join_groups [ [2, 3], [], [4], [] ] = [2, 3, 0, 0, 4, 0] \<and>
   decodeSeq [2, 3, 0, 0, 4, 0] 1 = [ [1, 2, 3, 1], [1, 1], [1, 4, 1] ] \<and>
   length (decodeSeq ([2, 0] @ [3]) 1) = 2 \<and>
   routeCost [1, 1] (buildDist [(0, 0), (3, 4)]) = Inr 0"
proof -
  have j: "join_groups [ [2, 3], [], [4], [] ] = [2, 3, 0, 0, 4, 0]" by simp
  have g: "\<forall>g\<in>set [ [2, 3], [], [4], [] ]. (0::int) \<notin> set g" by simp
  have v: "(3::int) \<noteq> 0" by simp
  have r: "0 \<le> (1::int) \<and> 1 < int (length [(0::real, 0::real), (3, 4)])" by simp
  from decodeSeq_empty_routes[of "[ [2, 3], [], [4], [] ]" 1 "[2, 0]" "[]" 3 "\<lambda>c. 0" "[(0, 0), (3, 4)]"]
    j g v r
  show ?thesis by simp
qed

section \<open>Properties of \<^verbatim>\<open>repairZero\<close>\<close>

lemma count_erase_at:
  assumes "i < length seq" "seq ! i = 0"
  shows "int (count_list (erase_at i seq) 0) = int (count_list seq 0) - 1"
proof -
  have s: "seq = take i seq @ 0 # drop (Suc i) seq"
    using assms id_take_nth_drop[of i seq] by simp
  have "count_list seq 0 = count_list (take i seq @ 0 # drop (Suc i) seq) 0"
    by (rule arg_cong[OF s])
  then show ?thesis by (simp add: erase_at_def)
qed

lemma filter_erase_at:
  assumes "i < length seq" "seq ! i = 0"
  shows "filter (\<lambda>v. v \<noteq> 0) (erase_at i seq) = filter (\<lambda>v. v \<noteq> 0) seq"
proof -
  have s: "seq = take i seq @ 0 # drop (Suc i) seq"
    using assms id_take_nth_drop[of i seq] by simp
  have "filter (\<lambda>v. v \<noteq> 0) seq = filter (\<lambda>v. v \<noteq> 0) (take i seq @ 0 # drop (Suc i) seq)"
    by (rule arg_cong[OF s])
  then show ?thesis by (simp add: erase_at_def)
qed

lemma find_zero_le: "find_zero seq \<le> length seq"
  by (induction seq) auto

lemma find_zero_found: "find_zero seq < length seq \<Longrightarrow> seq ! find_zero seq = 0"
  by (induction seq) (auto split: if_splits)

lemma find_zero_iff: "find_zero seq < length seq \<longleftrightarrow> 0 < count_list seq 0"
  by (induction seq) auto

lemma repairZero_body_inv:
  assumes "zc = int (count_list seq 0)" "nz < zc" "i + 1 < length seq"
    and "repairZero_body i seq zc nz = (seq', zc', brk)"
  shows "zc' = int (count_list seq' 0) \<and>
         filter (\<lambda>v. v \<noteq> 0) seq' = filter (\<lambda>v. v \<noteq> 0) seq \<and>
         nz \<le> zc' \<and> zc' \<le> zc \<and> (brk \<longleftrightarrow> zc' = nz) \<and> (0 \<le> nz \<longrightarrow> zc' < zc) \<and>
         length seq \<le> length seq' + 2"
proof -
  define hit where "hit \<longleftrightarrow> seq ! i = 0 \<and>
     (i = 0 \<or> i = length seq - 1 \<or> (i + 1 < length seq \<and> seq ! (i + 1) = 0))"
  define seq1 where "seq1 = (if hit then erase_at i seq else seq)"
  define zc1 where "zc1 = (if hit then zc - 1 else zc)"
  define found where "found \<longleftrightarrow> find_zero seq1 < length seq1"
  define seq2 where "seq2 = (if found then erase_at (find_zero seq1) seq1 else seq1)"
  define zc2 where "zc2 = (if found then zc1 - 1 else zc1)"
  have body: "repairZero_body i seq zc nz =
      (if hit \<and> zc1 = nz then (seq1, zc1, True)
       else if zc1 > nz then (seq2, zc2, zc2 = nz) else (seq1, zc1, False))"
    unfolding repairZero_body_def Let_def hit_def seq1_def zc1_def found_def seq2_def zc2_def
    by (rule refl)
  have i: "i < length seq" using assms(3) by simp
  have hz: "hit \<Longrightarrow> seq ! i = 0" by (simp add: hit_def)
  have c1: "zc1 = int (count_list seq1 0)"
    using assms(1) count_erase_at[OF i] hz by (auto simp: zc1_def seq1_def)
  have f1: "filter (\<lambda>v. v \<noteq> 0) seq1 = filter (\<lambda>v. v \<noteq> 0) seq"
    using filter_erase_at[OF i] hz by (auto simp: seq1_def)
  have b1: "nz \<le> zc1" "zc1 \<le> zc" "hit \<Longrightarrow> zc1 < zc" "\<not> hit \<Longrightarrow> nz < zc1"
    using assms(2) by (auto simp: zc1_def)
  have l1: "length seq \<le> length seq1 + 1"
    using i by (auto simp: seq1_def erase_at_def)
  show ?thesis
  proof (cases "hit \<and> zc1 = nz")
    case True
    with assms(4) body have "seq' = seq1" "zc' = zc1" "brk" by simp_all
    with True c1 f1 b1 l1 show ?thesis by auto
  next
    case False
    with b1 have gt: "nz < zc1" by (cases hit) auto
    from False gt assms(4) body have res: "seq' = seq2" "zc' = zc2" "brk \<longleftrightarrow> zc2 = nz"
      by auto
    have fz: "found \<Longrightarrow> find_zero seq1 < length seq1 \<and> seq1 ! find_zero seq1 = 0"
      using find_zero_found[of seq1] by (simp add: found_def)
    have c2: "zc2 = int (count_list seq2 0)"
      using c1 count_erase_at[of "find_zero seq1" seq1] fz
      by (auto simp: zc2_def seq2_def)
    have f2: "filter (\<lambda>v. v \<noteq> 0) seq2 = filter (\<lambda>v. v \<noteq> 0) seq"
      using f1 filter_erase_at[of "find_zero seq1" seq1] fz
      by (auto simp: seq2_def)
    have fnd: "0 \<le> nz \<Longrightarrow> found"
      using gt c1 find_zero_iff[of seq1] by (simp add: found_def)
    have b2: "nz \<le> zc2" "zc2 \<le> zc" "0 \<le> nz \<Longrightarrow> zc2 < zc"
      using gt b1 fnd by (auto simp: zc2_def)
    have l2: "length seq1 \<le> length seq2 + 1"
      using fz by (auto simp: seq2_def erase_at_def)
    from res c2 f2 b2 l1 l2 show ?thesis by auto
  qed
qed

lemma repairZero_for_inv:
  "seq \<noteq> [] \<Longrightarrow> 1 \<le> i \<Longrightarrow> zc = int (count_list seq 0) \<Longrightarrow> nz < zc \<Longrightarrow>
     \<exists>seq' zc'. repairZero_for i seq zc nz = Inr (seq', zc') \<and> seq' \<noteq> [] \<and>
       zc' = int (count_list seq' 0) \<and>
       filter (\<lambda>v. v \<noteq> 0) seq' = filter (\<lambda>v. v \<noteq> 0) seq \<and>
       nz \<le> zc' \<and> zc' \<le> zc \<and> (0 \<le> nz \<and> i + 1 < length seq \<longrightarrow> zc' < zc)"
proof (induction i seq zc nz rule: repairZero_for.induct)
  case (1 i seq zeroCount needZero)
  show ?case
  proof (cases "i < length seq - 1")
    case False
    with "1.prems" show ?thesis
      by (subst repairZero_for.simps) auto
  next
    case True
    then have i: "i + 1 < length seq" by simp
    obtain seq1 zc1 brk where b: "repairZero_body i seq zeroCount needZero = (seq1, zc1, brk)"
      by (cases "repairZero_body i seq zeroCount needZero")
    note inv = repairZero_body_inv[OF "1.prems"(3) "1.prems"(4) i b]
    from inv i "1.prems"(2) have ne: "seq1 \<noteq> []"
      by (cases seq1) auto
    show ?thesis
    proof (cases brk)
      case True
      with inv b ne \<open>i < length seq - 1\<close> "1.prems"(1) show ?thesis
        by (subst repairZero_for.simps) auto
    next
      case False
      with inv have gt: "needZero < zc1" by auto
      have eq: "repairZero_for i seq zeroCount needZero = repairZero_for (i + 1) seq1 zc1 needZero"
        using b False \<open>i < length seq - 1\<close> "1.prems"(1)
        by (subst repairZero_for.simps) simp
      from inv have c: "zc1 = int (count_list seq1 0)" by simp
      have i1: "1 \<le> i + 1" by simp
      from "1.IH"[OF "1.prems"(1) \<open>i < length seq - 1\<close> b[symmetric] refl False ne i1 c gt]
      obtain seq' zc' where r: "repairZero_for (i + 1) seq1 zc1 needZero = Inr (seq', zc')"
        "seq' \<noteq> []" "zc' = int (count_list seq' 0)"
        "filter (\<lambda>v. v \<noteq> 0) seq' = filter (\<lambda>v. v \<noteq> 0) seq1"
        "needZero \<le> zc'" "zc' \<le> zc1"
        by blast
      with inv eq show ?thesis by auto
    qed
  qed
qed


lemma repairZero_while_total:
  "zc = int (count_list seq 0) \<Longrightarrow> 0 \<le> nz \<Longrightarrow> nz \<le> zc \<Longrightarrow>
   zc = nz \<or> 2 \<le> length (filter (\<lambda>v. v \<noteq> 0) seq) \<Longrightarrow>
     \<exists>seq'. repairZero_while seq zc nz = Some (Inr seq') \<and>
       int (count_list seq' 0) = nz \<and>
       filter (\<lambda>v. v \<noteq> 0) seq' = filter (\<lambda>v. v \<noteq> 0) seq"
proof (induction "nat (zc - nz)" arbitrary: seq zc rule: less_induct)
  case less
  show ?case
  proof (cases "nz < zc")
    case False
    with less.prems show ?thesis
      by (subst repairZero_while.simps) simp
  next
    case True
    with less.prems have two: "2 \<le> length (filter (\<lambda>v. v \<noteq> 0) seq)" by simp
    then have ne: "seq \<noteq> []" by auto
    have "length seq = length (filter (\<lambda>v. v \<noteq> 0) seq) + count_list seq 0"
      by (induction seq) auto
    with two True less.prems(1,2) have len: "1 + 1 < length seq" by simp
    from repairZero_for_inv[OF ne order_refl less.prems(1) True]
    obtain seq1 zc1 where r: "repairZero_for 1 seq zc nz = Inr (seq1, zc1)"
      "zc1 = int (count_list seq1 0)"
      "filter (\<lambda>v. v \<noteq> 0) seq1 = filter (\<lambda>v. v \<noteq> 0) seq"
      "nz \<le> zc1" "0 \<le> nz \<and> 1 + 1 < length seq \<longrightarrow> zc1 < zc"
      by blast
    with len less.prems(2) have dec: "nat (zc1 - nz) < nat (zc - nz)" by simp
    have two1: "zc1 = nz \<or> 2 \<le> length (filter (\<lambda>v. v \<noteq> 0) seq1)"
      using two r(3) by simp
    from less.hyps[OF dec r(2) less.prems(2) r(4) two1]
    obtain seq' where w: "repairZero_while seq1 zc1 nz = Some (Inr seq')"
      "int (count_list seq' 0) = nz"
      "filter (\<lambda>v. v \<noteq> 0) seq' = filter (\<lambda>v. v \<noteq> 0) seq1"
      by blast
    have "repairZero_while seq zc nz = repairZero_while seq1 zc1 nz"
      using True r(1) by (subst repairZero_while.simps) simp
    with w r(3) show ?thesis by simp
  qed
qed

lemma repairZero_while_partial:
  assumes "repairZero_while seq zc nz = Some r"
  shows "zc = int (count_list seq 0) \<longrightarrow> nz \<le> zc \<longrightarrow>
       (\<forall>seq'. r = Inr seq' \<longrightarrow>
          int (count_list seq' 0) = nz \<and>
          filter (\<lambda>v. v \<noteq> 0) seq' = filter (\<lambda>v. v \<noteq> 0) seq)"
proof (rule repairZero_while.raw_induct[where P = "\<lambda>seq zc nz r.
       zc = int (count_list seq 0) \<longrightarrow> nz \<le> zc \<longrightarrow>
       (\<forall>seq'. r = Inr seq' \<longrightarrow>
          int (count_list seq' 0) = nz \<and>
          filter (\<lambda>v. v \<noteq> 0) seq' = filter (\<lambda>v. v \<noteq> 0) seq)", OF _ assms])
  fix f :: "int list \<Rightarrow> int \<Rightarrow> int \<Rightarrow> (error + int list) option"
    and seq :: "int list" and zc nz :: int and r :: "error + int list"
  assume IH: "\<And>s z n y. f s z n = Some y \<Longrightarrow>
       z = int (count_list s 0) \<longrightarrow> n \<le> z \<longrightarrow>
       (\<forall>seq'. y = Inr seq' \<longrightarrow>
          int (count_list seq' 0) = n \<and>
          filter (\<lambda>v. v \<noteq> 0) seq' = filter (\<lambda>v. v \<noteq> 0) s)"
  assume step: "(if nz < zc
        then case repairZero_for 1 seq zc nz of
             Inl e \<Rightarrow> Some (Inl e)
             | Inr (seq', zeroCount') \<Rightarrow> f seq' zeroCount' nz
        else Some (Inr seq)) = Some r"
  show "zc = int (count_list seq 0) \<longrightarrow> nz \<le> zc \<longrightarrow>
       (\<forall>seq'. r = Inr seq' \<longrightarrow>
          int (count_list seq' 0) = nz \<and>
          filter (\<lambda>v. v \<noteq> 0) seq' = filter (\<lambda>v. v \<noteq> 0) seq)"
  proof (intro impI allI)
    fix seq'
    assume c: "zc = int (count_list seq 0)" and le: "nz \<le> zc" and r: "r = Inr seq'"
    show "int (count_list seq' 0) = nz \<and>
          filter (\<lambda>v. v \<noteq> 0) seq' = filter (\<lambda>v. v \<noteq> 0) seq"
    proof (cases "nz < zc")
      case False
      with step le c r show ?thesis by simp
    next
      case True
      show ?thesis
      proof (cases "seq = []")
        case True
        with \<open>nz < zc\<close> step r show ?thesis
          by (simp add: repairZero_for.simps)
      next
        case False
        from repairZero_for_inv[OF False order_refl c True]
        obtain seq1 zc1 where q: "repairZero_for 1 seq zc nz = Inr (seq1, zc1)"
          "zc1 = int (count_list seq1 0)"
          "filter (\<lambda>v. v \<noteq> 0) seq1 = filter (\<lambda>v. v \<noteq> 0) seq"
          "nz \<le> zc1"
          by blast
        with True step have "f seq1 zc1 nz = Some r" by simp
        from IH[OF this] q r show ?thesis by simp
      qed
    qed
  qed
qed

lemma repairZero_while_stuck: "repairZero_while [0, 2] 1 0 = None"
proof (cases "repairZero_while [0, 2] 1 0")
  case None
  then show ?thesis .
next
  case (Some r)
  have "\<not> ([0, 2] = [0, 2::int] \<and> (1::int) = 1 \<and> (0::int) = 0)"
  proof (rule repairZero_while.raw_induct[where P = "\<lambda>seq zc nz r.
       \<not> (seq = [0, 2] \<and> zc = 1 \<and> nz = 0)", OF _ Some])
    fix f :: "int list \<Rightarrow> int \<Rightarrow> int \<Rightarrow> (error + int list) option"
      and seq :: "int list" and zc nz :: int and r :: "error + int list"
    assume IH: "\<And>s z n y. f s z n = Some y \<Longrightarrow> \<not> (s = [0, 2] \<and> z = 1 \<and> n = 0)"
    assume step: "(if nz < zc
        then case repairZero_for 1 seq zc nz of
             Inl e \<Rightarrow> Some (Inl e)
             | Inr (seq', zeroCount') \<Rightarrow> f seq' zeroCount' nz
        else Some (Inr seq)) = Some r"
    show "\<not> (seq = [0, 2] \<and> zc = 1 \<and> nz = 0)"
    proof
      assume a: "seq = [0, 2] \<and> zc = 1 \<and> nz = 0"
      with step have "f [0, 2] 1 0 = Some r"
        by (simp add: repairZero_for.simps)
      from IH[OF this] show False by simp
    qed
  qed
  then show ?thesis by simp
qed


section \<open>Properties of \<^verbatim>\<open>repairCustomer\<close>\<close>

lemma count_tokens_counts:
  "\<forall>v\<in>set seq. v \<noteq> 0 \<longrightarrow> 0 < v \<and> v < int (length cnt) \<Longrightarrow>
     \<exists>cnt'. count_tokens cnt seq = Inr cnt' \<and> length cnt' = length cnt \<and>
       (\<forall>j. 0 < j \<and> j < length cnt \<longrightarrow> cnt' ! j = cnt ! j + int (count_list seq (int j)))"
proof (induction seq arbitrary: cnt)
  case Nil
  then show ?case by simp
next
  case (Cons v vs)
  show ?case
  proof (cases "v = 0")
    case True
    from Cons.prems have "\<forall>v\<in>set vs. v \<noteq> 0 \<longrightarrow> 0 < v \<and> v < int (length cnt)" by simp
    from Cons.IH[OF this] True show ?thesis by auto
  next
    case False
    with Cons.prems have v: "0 < v" "v < int (length cnt)" by auto
    let ?c = "cnt[nat v := cnt ! nat v + 1]"
    from Cons.prems have "\<forall>v\<in>set vs. v \<noteq> 0 \<longrightarrow> 0 < v \<and> v < int (length ?c)" by simp
    from Cons.IH[OF this] obtain cnt' where r: "count_tokens ?c vs = Inr cnt'"
      "length cnt' = length cnt"
      "\<forall>j. 0 < j \<and> j < length cnt \<longrightarrow> cnt' ! j = ?c ! j + int (count_list vs (int j))"
      by auto
    have "cnt' ! j = cnt ! j + int (count_list (v # vs) (int j))" if "0 < j" "j < length cnt" for j
    proof (cases "j = nat v")
      case True
      with that r(3) v show ?thesis by simp
    next
      case False
      with v have "v \<noteq> int j" by auto
      with that r(3) False show ?thesis by simp
    qed
    with r(1,2) False v show ?thesis by simp
  qed
qed

lemma replace_dups_id:
  "\<forall>v\<in>set seq. v \<noteq> 0 \<longrightarrow> 0 \<le> v \<and> v < int (length cnt) \<and> cnt ! nat v \<le> 1 \<Longrightarrow>
     replace_dups missing idx cnt seq = Inr (seq, cnt)"
  by (induction seq) auto

lemma repair_loop_id:
  "\<forall>v\<in>set seq. v \<noteq> 0 \<longrightarrow> 0 \<le> v \<and> v < int (length cnt) \<and> cnt ! nat v \<le> 1 \<Longrightarrow>
   \<forall>i\<in>set ids. cnt ! nat i \<noteq> 0 \<Longrightarrow>
     repair_loop ids seq cnt missing = Inr (seq, missing)"
  by (induction ids) (auto simp: replace_dups_id)

lemma count_list_filter_nonzero:
  "v \<noteq> 0 \<Longrightarrow> count_list (filter (\<lambda>v. v \<noteq> 0) seq) v = count_list seq v"
  by (induction seq) auto

lemma repairCustomer_state_id:
  assumes n: "- 1 \<le> n" and p: "mset (filter (\<lambda>v. v \<noteq> 0) seq) = mset [2..n]"
  shows "repairCustomer_state seq n = Inr (seq, [])"
proof -
  let ?cnt0 = "replicate (nat (n + 1)) (0::int)"
  from p have st: "set (filter (\<lambda>v. v \<noteq> 0) seq) = set [2..n]" by (rule mset_eq_setD)
  have rng: "2 \<le> v \<and> v \<le> n" if "v \<in> set seq" "v \<noteq> 0" for v
  proof -
    from that have "v \<in> set (filter (\<lambda>v. v \<noteq> 0) seq)" by simp
    with st show ?thesis by simp
  qed
  have cl: "count_list seq v = 1" if "2 \<le> v" "v \<le> n" for v
  proof -
    have "count_list seq v = count (mset (filter (\<lambda>v. v \<noteq> 0) seq)) v"
      using that count_list_filter_nonzero[of v seq] by (simp add: count_mset del: mset_filter)
    also have "\<dots> = count (mset [2..n]) v" by (simp only: p)
    also have "\<dots> = (if v \<in> set [2..n] then 1 else 0)"
      using distinct_count_atmost_1[of "[2..n]"] distinct_upto[of 2 n] by blast
    also have "\<dots> = 1"
      using that by simp
    finally show ?thesis .
  qed
  have pre: "\<forall>v\<in>set seq. v \<noteq> 0 \<longrightarrow> 0 < v \<and> v < int (length ?cnt0)"
    using rng n by fastforce
  from count_tokens_counts[OF pre] obtain cnt where c: "count_tokens ?cnt0 seq = Inr cnt"
    "length cnt = nat (n + 1)"
    "\<forall>j. 0 < j \<and> j < nat (n + 1) \<longrightarrow> cnt ! j = ?cnt0 ! j + int (count_list seq (int j))"
    by auto
  have one: "cnt ! nat v = 1" if "2 \<le> v" "v \<le> n" for v
  proof -
    from that have "0 < nat v \<and> nat v < nat (n + 1)" by simp
    with c(3) have "cnt ! nat v = ?cnt0 ! nat v + int (count_list seq (int (nat v)))" by blast
    with that cl[OF that] show ?thesis by simp
  qed
  have a: "\<forall>v\<in>set seq. v \<noteq> 0 \<longrightarrow> 0 \<le> v \<and> v < int (length cnt) \<and> cnt ! nat v \<le> 1"
    using rng one c(2) by fastforce
  have b: "\<forall>i\<in>set [2..n]. cnt ! nat i \<noteq> 0"
    using one by simp
  from repair_loop_id[OF a b] c(1) n show ?thesis
    by (simp add: repairCustomer_state_def)
qed

lemma repairCustomer_id:
  "- 1 \<le> n \<Longrightarrow> mset (filter (\<lambda>v. v \<noteq> 0) seq) = mset [2..n] \<Longrightarrow> repairCustomer seq n = Inr seq"
  by (simp add: repairCustomer_def repairCustomer_state_id)

lemma repairCustomer_state_no_range_error:
  assumes p: "mset (filter (\<lambda>v. v \<noteq> 0) seq) = mset [2..n]"
  shows "repairCustomer_state seq n \<noteq> Inl OutOfRange"
proof (cases "- 1 \<le> n")
  case True
  from repairCustomer_state_id[OF True p] show ?thesis by simp
next
  case False
  then show ?thesis by (simp add: repairCustomer_state_def)
qed

section \<open>The generated and repaired chromosome\<close>

lemma initSeq_tokens:
  assumes "mset customers = mset [2..n]"
  shows "filter (\<lambda>v. v \<noteq> 0) (initSeq vehicle capacity demand customers) = customers"
proof -
  have "filter (\<lambda>v. v \<noteq> 0) customers = customers"
    using shuffle_nonzero[OF assms] by (auto intro: filter_True)
  then show ?thesis
    by (simp add: initSeq_def filter_join_groups concat_make_groups)
qed

lemma initSeq_zero_count:
  assumes "mset customers = mset [2..n]"
  shows "count_list (initSeq vehicle capacity demand customers) 0 =
           length (make_groups vehicle capacity demand customers) - 1"
proof -
  have "count_list customers 0 = 0"
    using shuffle_nonzero[OF assms] count_list_0_iff[of customers 0] by blast
  then show ?thesis
    by (simp add: initSeq_def count_join_groups concat_make_groups)
qed

lemma repairZero_initSeq_partial:
  assumes p: "mset customers = mset [2..n]"
    and r: "repairZero (initSeq vehicle capacity demand customers) vehicle = Some (Inr s)"
  shows "int (count_list s 0) = vehicle - 1 \<and> filter (\<lambda>v. v \<noteq> 0) s = customers"
proof -
  let ?gs = "make_groups vehicle capacity demand customers"
  let ?s0 = "initSeq vehicle capacity demand customers"
  have w: "repairZero_while ?s0 (int (count_list ?s0 0)) (vehicle - 1) = Some (Inr s)"
    using r by (simp add: repairZero_def)
  have le: "vehicle - 1 \<le> int (count_list ?s0 0)"
  proof (cases "?gs = []")
    case True
    with length_make_groups[of vehicle capacity demand customers] show ?thesis by simp
  next
    case False
    then have "1 \<le> length ?gs" by (cases ?gs) auto
    with length_make_groups[of vehicle capacity demand customers] initSeq_zero_count[OF p]
    show ?thesis by simp
  qed
  from repairZero_while_partial[OF w] le initSeq_tokens[OF p] show ?thesis by simp
qed

lemma shuffle_length: "mset customers = mset [2..n] \<Longrightarrow> int (length customers) = max 0 (n - 1)"
proof -
  assume "mset customers = mset [2..n]"
  then have "length customers = length [2..n]" by (rule mset_eq_length)
  then show ?thesis by simp
qed

lemma repairZero_initSeq_total:
  assumes p: "mset customers = mset [2..n]" and v: "1 \<le> vehicle"
    and small: "n = 2 \<longrightarrow> demand 2 \<le> capacity \<or> 2 \<le> vehicle"
  shows "\<exists>s. repairZero (initSeq vehicle capacity demand customers) vehicle = Some (Inr s)"
proof -
  let ?gs = "make_groups vehicle capacity demand customers"
  let ?s0 = "initSeq vehicle capacity demand customers"
  let ?closed = "close_groups (pack_customers demand capacity customers ([], [], 0))"
  have lg: "int (length ?gs) = max (int (length ?closed)) vehicle"
    by (rule length_make_groups)
  with v have "1 \<le> length ?gs" by simp
  with lg initSeq_zero_count[OF p, of vehicle capacity demand]
  have zc: "int (count_list ?s0 0) = max (int (length ?closed)) vehicle - 1" by simp
  have cases: "int (count_list ?s0 0) = vehicle - 1 \<or> 2 \<le> length (filter (\<lambda>v. v \<noteq> 0) ?s0)"
  proof (cases "3 \<le> n")
    case True
    with shuffle_length[OF p] have "2 \<le> length customers" by simp
    then show ?thesis by (simp add: initSeq_tokens[OF p])
  next
    case False
    show ?thesis
    proof (cases "n = 2")
      case True
      with p have "mset customers = {#2#}" by (simp add: upto.simps)
      then have c: "customers = [2]" by simp
      from True small v have "int (length ?closed) \<le> vehicle"
        by (auto simp: c)
      with zc show ?thesis by simp
    next
      case False
      with \<open>\<not> 3 \<le> n\<close> have "n < 2" by simp
      with p have "customers = []" by simp
      with zc v show ?thesis by simp
    qed
  qed
  from repairZero_while_total[OF refl _ _ cases] v zc
  obtain s where "repairZero_while ?s0 (int (count_list ?s0 0)) (vehicle - 1) = Some (Inr s)"
    by fastforce
  then show ?thesis by (auto simp: repairZero_def)
qed

lemma repair_individual_Inr:
  "repair_individual seq vehicle n = Some (Inr s) \<longleftrightarrow>
     (\<exists>s1. repairZero seq vehicle = Some (Inr s1) \<and> repairCustomer s1 n = Inr s)"
  by (auto simp: repair_individual_def split: option.splits sum.splits)

lemma pipeline_partial:
  assumes p: "mset customers = mset [2..n]"
    and r: "repair_individual (initSeq vehicle capacity demand customers) vehicle n = Some (Inr s)"
  shows "repairZero (initSeq vehicle capacity demand customers) vehicle = Some (Inr s) \<and>
         int (count_list s 0) = vehicle - 1 \<and> filter (\<lambda>v. v \<noteq> 0) s = customers"
proof -
  from r obtain s1 where s1: "repairZero (initSeq vehicle capacity demand customers) vehicle = Some (Inr s1)"
    "repairCustomer s1 n = Inr s"
    by (auto simp: repair_individual_Inr)
  note z = repairZero_initSeq_partial[OF p s1(1)]
  have n: "- 1 \<le> n"
  proof (rule ccontr)
    assume "\<not> - 1 \<le> n"
    then have "repairCustomer s1 n = Inl LengthError"
      by (simp add: repairCustomer_def repairCustomer_state_def)
    with s1(2) show False by simp
  qed
  from z p have "mset (filter (\<lambda>v. v \<noteq> 0) s1) = mset [2..n]" by simp
  from repairCustomer_id[OF n this] s1(2) have "s = s1" by simp
  with s1(1) z show ?thesis by simp
qed

lemma pipeline_total:
  assumes p: "mset customers = mset [2..n]" and v: "1 \<le> vehicle" and n: "1 \<le> n"
    and small: "n = 2 \<longrightarrow> demand 2 \<le> capacity \<or> 2 \<le> vehicle"
  shows "\<exists>s. repair_individual (initSeq vehicle capacity demand customers) vehicle n = Some (Inr s)"
proof -
  have "\<exists>s1. repairZero (initSeq vehicle capacity demand customers) vehicle = Some (Inr s1)"
    using p v small by (rule repairZero_initSeq_total)
  then obtain s1 where
    s1: "repairZero (initSeq vehicle capacity demand customers) vehicle = Some (Inr s1)" by blast
  from repairZero_initSeq_partial[OF p s1] p
  have "mset (filter (\<lambda>v. v \<noteq> 0) s1) = mset [2..n]" by simp
  with n have "repairCustomer s1 n = Inr s1" by (simp add: repairCustomer_id)
  with s1 show ?thesis by (auto simp: repair_individual_Inr)
qed

lemma tokens_once:
  assumes "mset (filter (\<lambda>v. v \<noteq> 0) s) = mset [2..n]"
  shows "\<forall>c\<in>set [2..n]. count_list s c = 1"
proof
  fix c assume c: "c \<in> set [2..n]"
  then have nz: "c \<noteq> 0" by simp
  have "count_list s c = count (mset (filter (\<lambda>v. v \<noteq> 0) s)) c"
    using count_list_filter_nonzero[OF nz, of s] by (simp add: count_mset del: mset_filter)
  also have "\<dots> = count (mset [2..n]) c" by (simp only: assms)
  also have "\<dots> = (if c \<in> set [2..n] then 1 else 0)"
    using distinct_count_atmost_1[of "[2..n]"] distinct_upto[of 2 n] by blast
  finally show "count_list s c = 1" using c by simp
qed

text \<open>
  C1. Let the shuffled customer list be a permutation of the ids \<open>2..n\<close>. Whenever the
  generated chromosome passes through \<^verbatim>\<open>repairZero\<close> and then \<^verbatim>\<open>repairCustomer\<close>, the
  non-separator tokens of the result are exactly the ids \<open>2..n\<close>, each once: none is
  duplicated and none is omitted. The two repairs do return a chromosome when there is at least
  one vehicle and one node, except for the instance with the single customer 2 whose demand
  exceeds the capacity and one vehicle.
\<close>

theorem repaired_customers_exactly_once:
  assumes "mset customers = mset [2..n]"
  shows "(\<forall>s. repair_individual (initSeq vehicle capacity demand customers) vehicle n = Some (Inr s) \<longrightarrow>
            mset (filter (\<lambda>v. v \<noteq> 0) s) = mset [2..n] \<and> (\<forall>c\<in>set [2..n]. count_list s c = 1)) \<and>
         (1 \<le> vehicle \<and> 1 \<le> n \<and> (n = 2 \<longrightarrow> demand 2 \<le> capacity \<or> 2 \<le> vehicle) \<longrightarrow>
            (\<exists>s. repair_individual (initSeq vehicle capacity demand customers) vehicle n = Some (Inr s)))"
proof (intro conjI allI impI)
  fix s
  assume r: "repair_individual (initSeq vehicle capacity demand customers) vehicle n = Some (Inr s)"
  from pipeline_partial[OF assms r] assms
  show m: "mset (filter (\<lambda>v. v \<noteq> 0) s) = mset [2..n]" by simp
  from tokens_once[OF m] show "\<forall>c\<in>set [2..n]. count_list s c = 1" .
next
  assume "1 \<le> vehicle \<and> 1 \<le> n \<and> (n = 2 \<longrightarrow> demand 2 \<le> capacity \<or> 2 \<le> vehicle)"
  then have "1 \<le> vehicle" "1 \<le> n" "n = 2 \<longrightarrow> demand 2 \<le> capacity \<or> 2 \<le> vehicle"
    by simp_all
  with assms
  show "\<exists>s. repair_individual (initSeq vehicle capacity demand customers) vehicle n = Some (Inr s)"
    by (rule pipeline_total)
qed

lemma example_pipeline:
  "repair_individual (initSeq 1 10 (\<lambda>c. 4) [3, 2, 4]) 1 4 = Some (Inr [3, 2, 4])"
  by (simp add: repair_individual_def initSeq_def make_groups_def pad_groups_def
      repairZero_def repairZero_while.simps repairZero_for.simps repairZero_body_def
      erase_at_def Let_def repairCustomer_def repairCustomer_state_def upto.simps)

text \<open>
  The three customers 3, 2, 4 with demand 4 each, capacity 10 and one vehicle: the generator
  yields \<open>[3, 2, 0, 4]\<close> and the repairs return \<open>[3, 2, 4]\<close>.
\<close>

theorem repaired_customers_exactly_once_witness:
  "mset [3, 2, 4] = mset [2..4] \<and>
   repair_individual (initSeq 1 10 (\<lambda>c. 4) [3, 2, 4]) 1 4 = Some (Inr [3, 2, 4]) \<and>
   mset (filter (\<lambda>v. v \<noteq> 0) [3, 2, 4]) = mset [2..4]"
proof -
  have h: "mset [3, 2, 4] = mset [2..4]" by (simp add: upto.simps)
  from repaired_customers_exactly_once[OF h, of 1 10 "\<lambda>c. 4"] example_pipeline h
  show ?thesis by blast
qed

text \<open>
  C2. Let the shuffled customer list be a permutation of the ids \<open>2..n\<close>. Whenever the
  generated chromosome passes through \<^verbatim>\<open>repairZero\<close> and then \<^verbatim>\<open>repairCustomer\<close>, the
  result has exactly \<open>vehicle - 1\<close> separators: \<^verbatim>\<open>repairZero\<close> brings the count to the
  target and \<^verbatim>\<open>repairCustomer\<close> returns the chromosome unchanged. The repairs return under
  the condition stated for the customer ids above.
\<close>

theorem repaired_separator_count:
  assumes "mset customers = mset [2..n]"
  shows "(\<forall>s. repair_individual (initSeq vehicle capacity demand customers) vehicle n = Some (Inr s) \<longrightarrow>
            int (count_list s 0) = vehicle - 1) \<and>
         (\<forall>s1 s. repairZero (initSeq vehicle capacity demand customers) vehicle = Some (Inr s1) \<longrightarrow>
            int (count_list s1 0) = vehicle - 1 \<and>
            (repairCustomer s1 n = Inr s \<longrightarrow> s = s1)) \<and>
         (1 \<le> vehicle \<and> 1 \<le> n \<and> (n = 2 \<longrightarrow> demand 2 \<le> capacity \<or> 2 \<le> vehicle) \<longrightarrow>
            (\<exists>s. repair_individual (initSeq vehicle capacity demand customers) vehicle n = Some (Inr s)))"
proof (intro conjI allI impI)
  fix s
  assume r: "repair_individual (initSeq vehicle capacity demand customers) vehicle n = Some (Inr s)"
  from pipeline_partial[OF assms r] show "int (count_list s 0) = vehicle - 1" by simp
next
  fix s1 s
  assume z: "repairZero (initSeq vehicle capacity demand customers) vehicle = Some (Inr s1)"
  from repairZero_initSeq_partial[OF assms z] show "int (count_list s1 0) = vehicle - 1" by simp
next
  fix s1 s
  assume z: "repairZero (initSeq vehicle capacity demand customers) vehicle = Some (Inr s1)"
    and c: "repairCustomer s1 n = Inr s"
  from z c have "repair_individual (initSeq vehicle capacity demand customers) vehicle n = Some (Inr s)"
    by (auto simp: repair_individual_Inr)
  from pipeline_partial[OF assms this] z show "s = s1" by simp
next
  assume "1 \<le> vehicle \<and> 1 \<le> n \<and> (n = 2 \<longrightarrow> demand 2 \<le> capacity \<or> 2 \<le> vehicle)"
  then have "1 \<le> vehicle" "1 \<le> n" "n = 2 \<longrightarrow> demand 2 \<le> capacity \<or> 2 \<le> vehicle"
    by simp_all
  with assms
  show "\<exists>s. repair_individual (initSeq vehicle capacity demand customers) vehicle n = Some (Inr s)"
    by (rule pipeline_total)
qed

lemma example_pipeline2:
  "repair_individual (initSeq 2 10 (\<lambda>c. 4) [5, 3, 2, 6, 4]) 2 6 = Some (Inr [5, 3, 2, 6, 0, 4])"
  by (simp add: repair_individual_def initSeq_def make_groups_def pad_groups_def
      repairZero_def repairZero_while.simps repairZero_for.simps repairZero_body_def
      erase_at_def Let_def repairCustomer_def repairCustomer_state_def upto.simps)

text \<open>
  Five customers with demand 4 each, capacity 10 and two vehicles: three bins are packed and
  one separator is removed.
\<close>

theorem repaired_separator_count_witness:
  "mset [5, 3, 2, 6, 4] = mset [2..6] \<and>
   initSeq 2 10 (\<lambda>c. 4) [5, 3, 2, 6, 4] = [5, 3, 0, 2, 6, 0, 4] \<and>
   repair_individual (initSeq 2 10 (\<lambda>c. 4) [5, 3, 2, 6, 4]) 2 6 = Some (Inr [5, 3, 2, 6, 0, 4]) \<and>
   int (count_list [5, 3, 2, 6, 0, 4 :: int] 0) = 2 - 1"
proof -
  have h: "mset [5, 3, 2, 6, 4] = mset [2..6]" by (simp add: upto.simps)
  have i: "initSeq 2 10 (\<lambda>c. 4) [5, 3, 2, 6, 4] = [5, 3, 0, 2, 6, 0, 4]"
    by (simp add: initSeq_def make_groups_def pad_groups_def)
  from repaired_separator_count[OF h, of 2 10 "\<lambda>c. 4"] example_pipeline2 h i
  show ?thesis by blast
qed

text \<open>
  C4. For a chromosome that reaches \<^verbatim>\<open>repairCustomer\<close> from the generator and
  \<^verbatim>\<open>repairZero\<close>, the number of duplicate-occurrence slots equals the number of missing
  ids (both are zero), \<^verbatim>\<open>repairCustomer\<close> makes no out-of-range read, and its \<^verbatim>\<open>missing\<close>
  list stays empty while the chromosome is returned unchanged.
\<close>

theorem repairCustomer_missing_reads_in_range:
  assumes "mset customers = mset [2..n]"
    and "repairZero (initSeq vehicle capacity demand customers) vehicle = Some (Inr s)"
  shows "duplicate_slots s = length (missing_ids s n) \<and>
         repairCustomer_state s n \<noteq> Inl OutOfRange \<and>
         (- 1 \<le> n \<longrightarrow> repairCustomer_state s n = Inr (s, []))"
proof -
  from repairZero_initSeq_partial[OF assms] have f: "filter (\<lambda>v. v \<noteq> 0) s = customers" by simp
  with assms(1) have m: "mset (filter (\<lambda>v. v \<noteq> 0) s) = mset [2..n]" by simp
  have "distinct customers"
    using mset_eq_imp_distinct_iff[OF assms(1)] by simp
  then have d: "duplicate_slots s = 0"
    by (simp add: duplicate_slots_def f distinct_remdups_id)
  have "missing_ids s n = []"
    using tokens_once[OF m] by (simp add: missing_ids_def filter_empty_conv)
  with d repairCustomer_state_no_range_error[OF m] repairCustomer_state_id[OF _ m]
  show ?thesis by simp
qed

lemma example_repairZero:
  "repairZero (initSeq 2 10 (\<lambda>c. 4) [5, 3, 2, 6, 4]) 2 = Some (Inr [5, 3, 2, 6, 0, 4])"
  by (simp add: initSeq_def make_groups_def pad_groups_def
      repairZero_def repairZero_while.simps repairZero_for.simps repairZero_body_def
      erase_at_def Let_def)

text \<open>The chromosome \<open>[5, 3, 2, 6, 0, 4]\<close> that \<^verbatim>\<open>repairZero\<close> returns for five customers.\<close>

theorem repairCustomer_missing_reads_in_range_witness:
  "mset [5, 3, 2, 6, 4] = mset [2..6] \<and>
   repairZero (initSeq 2 10 (\<lambda>c. 4) [5, 3, 2, 6, 4]) 2 = Some (Inr [5, 3, 2, 6, 0, 4]) \<and>
   duplicate_slots [5, 3, 2, 6, 0, 4] = length (missing_ids [5, 3, 2, 6, 0, 4] 6) \<and>
   repairCustomer_state [5, 3, 2, 6, 0, 4] 6 = Inr ([5, 3, 2, 6, 0, 4], [])"
proof -
  have h: "mset [5, 3, 2, 6, 4] = mset [2..6]" by (simp add: upto.simps)
  from repairCustomer_missing_reads_in_range[OF h example_repairZero] h example_repairZero
  show ?thesis by simp
qed

text \<open>
  C3. Termination of \<^verbatim>\<open>repairZero\<close> on every chromosome with at least \<open>vehicle - 1\<close>
  separators does not hold of the code. For the single customer 2 with demand 5, capacity 1
  and one vehicle the generator yields \<open>[0, 2]\<close>, which has one separator where none is
  wanted; the \<^verbatim>\<open>for\<close> loop has no iteration on a vector of two elements, nothing is
  removed, and the \<^verbatim>\<open>while\<close> loop never exits.
\<close>

theorem repairZero_does_not_terminate:
  "mset [2] = mset [2..2] \<and> initSeq 1 1 (\<lambda>c. 5) [2] = [0, 2] \<and>
   1 - 1 \<le> int (count_list [0, 2] 0) \<and> repairZero [0, 2] 1 = None"
  by (simp add: repairZero_def repairZero_while_stuck initSeq_def make_groups_def pad_groups_def
      upto.simps)

text \<open>
  C5. The removal order (separators next to another separator first, arbitrary ones only
  afterwards) does not hold of the code. On \<open>[2, 3, 0, 4, 0, 0, 5]\<close> with three vehicles
  the first iteration of the \<^verbatim>\<open>for\<close> loop finds no separator at index 1 and at once
  removes the leftmost separator, at index 2, leaving the adjacent pair in place; the order of
  the specification removes one separator of the pair.
\<close>

theorem repairZero_ignores_adjacency:
  "repairZero [2, 3, 0, 4, 0, 0, 5] 3 = Some (Inr [2, 3, 4, 0, 0, 5]) \<and>
   spec_repairZero [2, 3, 0, 4, 0, 0, 5] 3 = [2, 3, 0, 4, 0, 5]"
  by (simp add: repairZero_def repairZero_while.simps repairZero_for.simps repairZero_body_def
      erase_at_def Let_def spec_repairZero_def)

section \<open>Properties of \<^verbatim>\<open>checkSolution\<close>\<close>

lemma wrap_int32_id: "- 2147483648 \<le> x \<Longrightarrow> x < 2147483648 \<Longrightarrow> wrap_int32 x = x"
  by (simp add: wrap_int32_def)

lemma fold_wrap_sum:
  "0 \<le> a \<Longrightarrow> \<forall>x\<in>set xs. 0 \<le> f x \<Longrightarrow> a + sum_list (map f xs) < 2147483648 \<Longrightarrow>
     fold (\<lambda>i s. wrap_int32 (s + f i)) xs a = a + sum_list (map f xs)"
proof (induction xs arbitrary: a)
  case Nil
  then show ?case by simp
next
  case (Cons x xs)
  have nn: "0 \<le> sum_list (map f xs)"
  proof (rule sum_list_nonneg)
    fix y assume "y \<in> set (map f xs)"
    with Cons.prems(2) show "0 \<le> y" by auto
  qed
  from Cons.prems have fx: "0 \<le> f x" by simp
  with Cons.prems nn have w: "wrap_int32 (a + f x) = a + f x"
    by (intro wrap_int32_id) auto
  from Cons.prems fx have "0 \<le> a + f x" "\<forall>y\<in>set xs. 0 \<le> f y"
    "a + f x + sum_list (map f xs) < 2147483648" by auto
  from Cons.IH[OF this] w show ?case by simp
qed

lemma routeDemand_interior:
  assumes "route \<noteq> []" "\<forall>c\<in>set (interior route). 0 \<le> demand c"
    and "sum_list (map demand (interior route)) < 2147483648"
  shows "routeDemand route demand = Inr (sum_list (map demand (interior route)))"
proof -
  let ?idx = "[1..<length route - 1]"
  have i: "interior route = map (\<lambda>i. route ! i) ?idx" by (simp add: interior_def)
  have nn: "\<forall>i\<in>set ?idx. 0 \<le> demand (route ! i)"
    using assms(2) unfolding i by simp
  have s: "sum_list (map demand (interior route)) = sum_list (map (\<lambda>i. demand (route ! i)) ?idx)"
    unfolding i by (simp add: comp_def)
  from assms(3) have "0 + sum_list (map (\<lambda>i. demand (route ! i)) ?idx) < 2147483648"
    unfolding s by simp
  from fold_wrap_sum[OF order_refl nn this] assms(1) show ?thesis
    by (simp add: routeDemand_def s)
qed

lemma mark_visited_char:
  assumes "\<forall>c\<in>set cs. 0 \<le> c \<and> c < int (length visited)"
  shows "(distinct cs \<and> (\<forall>c\<in>set cs. \<not> visited ! nat c) \<longrightarrow>
            (\<exists>v'. mark_visited visited cs = Inr (Some v') \<and> length v' = length visited \<and>
               (\<forall>j<length visited. v' ! j \<longleftrightarrow> visited ! j \<or> int j \<in> set cs))) \<and>
         (\<not> (distinct cs \<and> (\<forall>c\<in>set cs. \<not> visited ! nat c)) \<longrightarrow>
            mark_visited visited cs = Inr None)"
  using assms
proof (induction cs arbitrary: visited)
  case Nil
  then show ?case by simp
next
  case (Cons c cs)
  from Cons.prems have c: "0 \<le> c" "c < int (length visited)" by simp_all
  show ?case
  proof (cases "visited ! nat c")
    case True
    with c show ?thesis by simp
  next
    case False
    let ?v = "visited[nat c := True]"
    from Cons.prems have "\<forall>c\<in>set cs. 0 \<le> c \<and> c < int (length ?v)" by simp
    note IH = Cons.IH[OF this]
    have eq: "mark_visited visited (c # cs) = mark_visited ?v cs"
      using c False by simp
    have nth: "?v ! nat x \<longleftrightarrow> visited ! nat x \<or> x = c" if "x \<in> set cs" for x
    proof -
      from that Cons.prems have "0 \<le> x" "x < int (length visited)" by simp_all
      with c show ?thesis by (auto simp: nth_list_update)
    qed
    have cond: "(distinct cs \<and> (\<forall>x\<in>set cs. \<not> ?v ! nat x)) \<longleftrightarrow>
                (distinct (c # cs) \<and> (\<forall>x\<in>set (c # cs). \<not> visited ! nat x))"
      using nth False by auto
    show ?thesis
    proof (cases "distinct (c # cs) \<and> (\<forall>x\<in>set (c # cs). \<not> visited ! nat x)")
      case True
      with cond IH obtain v' where v': "mark_visited ?v cs = Inr (Some v')"
        "length v' = length visited"
        "\<forall>j<length visited. v' ! j \<longleftrightarrow> ?v ! j \<or> int j \<in> set cs"
        by auto
      have "v' ! j \<longleftrightarrow> visited ! j \<or> int j \<in> set (c # cs)" if "j < length visited" for j
        using v'(3) that c by (auto simp: nth_list_update)
      with v'(1,2) eq True show ?thesis by simp
    next
      case False
      with cond IH have "mark_visited ?v cs = Inr None" by blast
      with eq False show ?thesis by simp
    qed
  qed
qed

lemma check_routes_char:
  assumes "\<forall>r\<in>set routes. r \<noteq> [] \<and>
             (\<forall>c\<in>set (interior r). 0 \<le> c \<and> c < int (length visited) \<and> 0 \<le> demand c) \<and>
             sum_list (map demand (interior r)) < 2147483648"
  shows "(routes_ok demand capacity visited routes \<longrightarrow>
            (\<exists>v'. check_routes demand capacity visited routes = Inr (Some v') \<and>
               length v' = length visited \<and>
               (\<forall>j<length visited. v' ! j \<longleftrightarrow>
                   visited ! j \<or> int j \<in> set (concat (map interior routes))))) \<and>
         (\<not> routes_ok demand capacity visited routes \<longrightarrow>
            check_routes demand capacity visited routes = Inr None)"
  using assms
proof (induction routes arbitrary: visited)
  case Nil
  then show ?case by (simp add: routes_ok_def)
next
  case (Cons r rs)
  from Cons.prems have r: "r \<noteq> []" "\<forall>c\<in>set (interior r). 0 \<le> c \<and> c < int (length visited)"
    "\<forall>c\<in>set (interior r). 0 \<le> demand c" "sum_list (map demand (interior r)) < 2147483648"
    by simp_all
  note rd = routeDemand_interior[OF r(1) r(3) r(4)]
  note mv = mark_visited_char[OF r(2)]
  show ?case
  proof (cases "sum_list (map demand (interior r)) \<le> capacity")
    case False
    then show ?thesis by (simp add: rd routes_ok_def)
  next
    case True
    note dem = this
    show ?thesis
    proof (cases "distinct (interior r) \<and> (\<forall>c\<in>set (interior r). \<not> visited ! nat c)")
      case False
      with mv have "mark_visited visited (interior r) = Inr None" by blast
      moreover from False have "\<not> routes_ok demand capacity visited (r # rs)"
        by (auto simp: routes_ok_def)
      ultimately show ?thesis using dem by (simp add: rd)
    next
      case True
      with mv obtain v1 where v1: "mark_visited visited (interior r) = Inr (Some v1)"
        "length v1 = length visited"
        "\<forall>j<length visited. v1 ! j \<longleftrightarrow> visited ! j \<or> int j \<in> set (interior r)"
        by blast
      have eq: "check_routes demand capacity visited (r # rs) = check_routes demand capacity v1 rs"
        using dem v1(1) by (simp add: rd)
      from Cons.prems v1(2)
      have pre: "\<forall>r\<in>set rs. r \<noteq> [] \<and>
             (\<forall>c\<in>set (interior r). 0 \<le> c \<and> c < int (length v1) \<and> 0 \<le> demand c) \<and>
             sum_list (map demand (interior r)) < 2147483648"
        by simp
      note IH = Cons.IH[OF pre]
      have vis: "v1 ! nat c \<longleftrightarrow> visited ! nat c \<or> c \<in> set (interior r)"
        if "c \<in> set (concat (map interior rs))" for c
      proof -
        from that Cons.prems have "0 \<le> c" "c < int (length visited)" by auto
        with v1(3) show ?thesis by auto
      qed
      have ok: "routes_ok demand capacity v1 rs \<longleftrightarrow> routes_ok demand capacity visited (r # rs)"
        using True dem vis by (auto simp: routes_ok_def)
      show ?thesis
      proof (cases "routes_ok demand capacity visited (r # rs)")
        case False
        with ok IH eq show ?thesis by simp
      next
        case True
        with ok IH obtain v' where v': "check_routes demand capacity v1 rs = Inr (Some v')"
          "length v' = length v1"
          "\<forall>j<length v1. v' ! j \<longleftrightarrow> v1 ! j \<or> int j \<in> set (concat (map interior rs))"
          by blast
        have "v' ! j \<longleftrightarrow> visited ! j \<or> int j \<in> set (concat (map interior (r # rs)))"
          if "j < length visited" for j
          using v'(3) v1(2,3) that by auto
        with v'(1,2) v1(2) eq True show ?thesis by simp
      qed
    qed
  qed
qed

lemma once_iff_distinct_cover:
  assumes "set xs \<subseteq> {2..n::int}"
  shows "(\<forall>c\<in>{2..n}. count_list xs c = 1) \<longleftrightarrow> distinct xs \<and> (\<forall>c\<in>{2..n}. c \<in> set xs)"
proof
  assume a: "\<forall>c\<in>{2..n}. count_list xs c = 1"
  have "count (mset xs) c = (if c \<in> set xs then 1 else 0)" for c
  proof (cases "c \<in> set xs")
    case True
    with assms a show ?thesis by (auto simp: count_mset)
  next
    case False
    then show ?thesis by (simp add: count_mset)
  qed
  then have "distinct xs" using distinct_count_atmost_1[of xs] by blast
  moreover have "\<forall>c\<in>{2..n}. c \<in> set xs"
  proof
    fix c assume "c \<in> {2..n}"
    with a have "count_list xs c = 1" by blast
    then show "c \<in> set xs" using count_list_0_iff[of xs c] by (cases "c \<in> set xs") auto
  qed
  ultimately show "distinct xs \<and> (\<forall>c\<in>{2..n}. c \<in> set xs)" by blast
next
  assume b: "distinct xs \<and> (\<forall>c\<in>{2..n}. c \<in> set xs)"
  then have "count (mset xs) c = (if c \<in> set xs then 1 else 0)" for c
    using distinct_count_atmost_1[of xs] by blast
  with b show "\<forall>c\<in>{2..n}. count_list xs c = 1" by (auto simp: count_mset)
qed

text \<open>
  C6. For routes whose interior nodes are customer ids in \<open>2..n\<close>, with non-negative
  demands whose sum over a route fits a 32-bit \<^verbatim>\<open>int\<close>, \<^verbatim>\<open>checkSolution\<close> returns true if
  and only if the sum of the demands of the interior nodes of every route is at most the
  capacity and every id in \<open>2..n\<close> occurs exactly once among the interiors of all routes;
  in particular it returns false whenever an id occurs more than once.
\<close>

theorem checkSolution_iff:
  assumes n: "- 1 \<le> n"
    and wf: "\<forall>r\<in>set routes. r \<noteq> [] \<and> set (interior r) \<subseteq> {2..n}"
    and rng: "\<forall>r\<in>set routes. (\<forall>c\<in>set (interior r). 0 \<le> demand c) \<and>
                sum_list (map demand (interior r)) < 2147483648"
  shows "checkSolution routes demand capacity n =
           Inr ((\<forall>r\<in>set routes. sum_list (map demand (interior r)) \<le> capacity) \<and>
                (\<forall>c\<in>{2..n}. count_list (concat (map interior routes)) c = 1)) \<and>
         ((\<exists>c. 1 < count_list (concat (map interior routes)) c) \<longrightarrow>
            checkSolution routes demand capacity n = Inr False)"
proof -
  let ?v0 = "replicate (nat (n + 1)) False"
  let ?xs = "concat (map interior routes)"
  have sub: "set ?xs \<subseteq> {2..n}" using wf by auto
  have pre: "\<forall>r\<in>set routes. r \<noteq> [] \<and>
             (\<forall>c\<in>set (interior r). 0 \<le> c \<and> c < int (length ?v0) \<and> 0 \<le> demand c) \<and>
             sum_list (map demand (interior r)) < 2147483648"
  proof
    fix r assume r: "r \<in> set routes"
    with wf have "r \<noteq> []" "set (interior r) \<subseteq> {2..n}" by auto
    moreover from r rng have "\<forall>c\<in>set (interior r). 0 \<le> demand c"
      "sum_list (map demand (interior r)) < 2147483648" by auto
    ultimately show "r \<noteq> [] \<and>
             (\<forall>c\<in>set (interior r). 0 \<le> c \<and> c < int (length ?v0) \<and> 0 \<le> demand c) \<and>
             sum_list (map demand (interior r)) < 2147483648"
      using n by fastforce
  qed
  note ch = check_routes_char[OF pre, of capacity]
  have fresh: "\<forall>c\<in>set ?xs. \<not> ?v0 ! nat c"
  proof
    fix c assume "c \<in> set ?xs"
    with sub have "2 \<le> c" "c \<le> n" by auto
    then show "\<not> ?v0 ! nat c" by simp
  qed
  have ok: "routes_ok demand capacity ?v0 routes \<longleftrightarrow>
            (\<forall>r\<in>set routes. sum_list (map demand (interior r)) \<le> capacity) \<and> distinct ?xs"
    using fresh by (simp add: routes_ok_def)
  have main: "checkSolution routes demand capacity n =
           Inr ((\<forall>r\<in>set routes. sum_list (map demand (interior r)) \<le> capacity) \<and>
                (\<forall>c\<in>{2..n}. count_list ?xs c = 1))"
  proof (cases "routes_ok demand capacity ?v0 routes")
    case False
    with ch have "check_routes demand capacity ?v0 routes = Inr None" by blast
    moreover from False ok once_iff_distinct_cover[OF sub]
    have "\<not> ((\<forall>r\<in>set routes. sum_list (map demand (interior r)) \<le> capacity) \<and>
                (\<forall>c\<in>{2..n}. count_list ?xs c = 1))" by blast
    ultimately show ?thesis using n by (simp add: checkSolution_def)
  next
    case True
    with ch obtain v' where v': "check_routes demand capacity ?v0 routes = Inr (Some v')"
      "length v' = length ?v0"
      "\<forall>j<length ?v0. v' ! j \<longleftrightarrow> ?v0 ! j \<or> int j \<in> set ?xs"
      by blast
    have "v' ! nat c \<longleftrightarrow> c \<in> set ?xs" if "c \<in> {2..n}" for c
    proof -
      from that have "nat c < length ?v0" by simp
      with v'(3) have "v' ! nat c \<longleftrightarrow> ?v0 ! nat c \<or> int (nat c) \<in> set ?xs" by blast
      with that show ?thesis by simp
    qed
    then have "list_all (\<lambda>i. v' ! nat i) [2..n] \<longleftrightarrow> (\<forall>c\<in>{2..n}. c \<in> set ?xs)"
      by (simp add: list_all_iff)
    with True ok once_iff_distinct_cover[OF sub] v'(1) n show ?thesis
      by (simp add: checkSolution_def)
  qed
  have "(\<exists>c. 1 < count_list ?xs c) \<longrightarrow> \<not> (\<forall>c\<in>{2..n}. count_list ?xs c = 1)"
  proof
    assume "\<exists>c. 1 < count_list ?xs c"
    then obtain c where c: "1 < count_list ?xs c" by blast
    then have "c \<in> set ?xs" using count_list_0_iff[of ?xs c] by (cases "c \<in> set ?xs") auto
    with sub have "c \<in> {2..n}" by blast
    with c show "\<not> (\<forall>c\<in>{2..n}. count_list ?xs c = 1)" by force
  qed
  with main show ?thesis by auto
qed

lemma example_routes: "decodeSeq [2, 3, 0, 4] 1 = [ [1, 2, 3, 1], [1, 4, 1] ]"
  by (simp add: decodeSeq_def)

text \<open>
  The example of the specification (capacity 10, demands 4, 5, 3); the same routes with
  capacity 8, which the first route exceeds; and the routes with customer 2 visited twice.
\<close>

theorem checkSolution_iff_witness:
  "checkSolution [ [1, 2, 3, 1], [1, 4, 1] ] (\<lambda>c. if c = 2 then 4 else if c = 3 then 5 else 3) 10 4 = Inr True \<and>
   checkSolution [ [1, 2, 3, 1], [1, 4, 1] ] (\<lambda>c. if c = 2 then 4 else if c = 3 then 5 else 3) 8 4 = Inr False \<and>
   checkSolution [ [1, 2, 3, 1], [1, 2, 1] ] (\<lambda>c. if c = 2 then 4 else if c = 3 then 5 else 3) 10 4 = Inr False"
proof -
  let ?d = "\<lambda>c::int. if c = 2 then 4 else if c = 3 then 5 else (3::int)"
  have n: "- 1 \<le> (4::int)" by simp
  have w1: "\<forall>r\<in>set [ [1, 2, 3, 1], [1, 4, 1] ]. r \<noteq> [] \<and> set (interior r) \<subseteq> {2..4::int}"
    by (simp add: interior_butlast_tl)
  have w2: "\<forall>r\<in>set [ [1, 2, 3, 1], [1, 2, 1] ]. r \<noteq> [] \<and> set (interior r) \<subseteq> {2..4::int}"
    by (simp add: interior_butlast_tl)
  have r1: "\<forall>r\<in>set [ [1, 2, 3, 1], [1, 4, 1] ]. (\<forall>c\<in>set (interior r). 0 \<le> ?d c) \<and>
                sum_list (map ?d (interior r)) < 2147483648"
    by (simp add: interior_butlast_tl)
  have r2: "\<forall>r\<in>set [ [1, 2, 3, 1], [1, 2, 1] ]. (\<forall>c\<in>set (interior r). 0 \<le> ?d c) \<and>
                sum_list (map ?d (interior r)) < 2147483648"
    by (simp add: interior_butlast_tl)
  have d: "1 < count_list (concat (map interior [ [1, 2, 3, 1], [1, 2, 1 :: int] ])) 2"
    by (simp add: interior_butlast_tl)
  have a: "(\<forall>r\<in>set [ [1, 2, 3, 1], [1, 4, 1 :: int] ]. sum_list (map ?d (interior r)) \<le> 10) \<and>
           (\<forall>c\<in>{2..4}. count_list (concat (map interior [ [1, 2, 3, 1], [1, 4, 1 :: int] ])) c = 1)"
  proof -
    have "{2..4::int} = {2, 3, 4}" by auto
    then show ?thesis by (simp add: interior_butlast_tl)
  qed
  have b: "\<not> (\<forall>r\<in>set [ [1, 2, 3, 1], [1, 4, 1 :: int] ]. sum_list (map ?d (interior r)) \<le> 8)"
    by (simp add: interior_butlast_tl)
  have a': "((\<forall>r\<in>set [ [1, 2, 3, 1], [1, 4, 1 :: int] ]. sum_list (map ?d (interior r)) \<le> 10) \<and>
           (\<forall>c\<in>{2..4}. count_list (concat (map interior [ [1, 2, 3, 1], [1, 4, 1 :: int] ])) c = 1))
           = True"
    using a by (rule eqTrueI)
  have b': "((\<forall>r\<in>set [ [1, 2, 3, 1], [1, 4, 1 :: int] ]. sum_list (map ?d (interior r)) \<le> 8) \<and>
           (\<forall>c\<in>{2..4}. count_list (concat (map interior [ [1, 2, 3, 1], [1, 4, 1 :: int] ])) c = 1))
           = False"
    using b by blast
  have t1: "checkSolution [ [1, 2, 3, 1], [1, 4, 1] ] ?d 10 4 = Inr True"
    using checkSolution_iff[OF n w1 r1, of 10, THEN conjunct1] by (simp only: a')
  have t2: "checkSolution [ [1, 2, 3, 1], [1, 4, 1] ] ?d 8 4 = Inr False"
    using checkSolution_iff[OF n w1 r1, of 8, THEN conjunct1] by (simp only: b')
  have "\<exists>c. 1 < count_list (concat (map interior [ [1, 2, 3, 1], [1, 2, 1 :: int] ])) c"
    using d by blast
  with checkSolution_iff[OF n w2 r2, of 10, THEN conjunct2]
  have t3: "checkSolution [ [1, 2, 3, 1], [1, 2, 1] ] ?d 10 4 = Inr False"
    by (rule mp)
  from t1 t2 t3 show ?thesis by (intro conjI)
qed

section \<open>Properties of the cost functions\<close>













end
